theory Spec2Isabelle
  imports Complex_Main "HOL-Library.Log_Nat" "HOL-Library.Word" "HOL-Library.Multiset"
begin

section \<open>JavaScript values used by the statement generator\<close>

subsection \<open>Numbers\<close>

text \<open>
  A JavaScript Number is an IEEE-754 binary64 value. The finite ones are rationals, so
  the model keeps them as \<^typ>\<open>rat\<close> and rounds every inexact result with
  \<open>toDouble\<close> (round to nearest, ties to even, 53 significant bits, gradual underflow,
  overflow to infinity). The two zeros are one value here: no code path of the source
  divides by a zero or inspects the sign of a zero.
\<close>

datatype jsnum = NaN | PInf | NInf | Fin rat

text \<open>Thrown exceptions are values of this type.\<close>

datatype js_error = SyntaxError | RangeError | ApiError nat | FetchRejected

definition ilog2 :: "rat \<Rightarrow> int" where
  "ilog2 a = (case quotient_of a of (p, q) \<Rightarrow>
     let k = bitlen p - bitlen q in if 2 powi k \<le> a then k else k - 1)"

definition roundHalfEven :: "rat \<Rightarrow> int" where
  "roundHalfEven q = (let f = \<lfloor>q\<rfloor>; r = q - of_int f in
     if r < 1 / 2 then f else if 1 / 2 < r then f + 1 else if even f then f else f + 1)"

definition toDouble :: "rat \<Rightarrow> jsnum" where
  "toDouble x = (if x = 0 then Fin 0 else
     let a = \<bar>x\<bar>;
         e = max (ilog2 a) (- 1022);
         ulp = 2 powi (e - 52);
         y = of_int (roundHalfEven (a / ulp)) * ulp
     in if 2 powi 1024 \<le> y then (if x < 0 then NInf else PInf)
        else Fin (if x < 0 then - y else y))"

text \<open>The exponent and the unit in the last place that \<open>toDouble\<close> rounds a positive \<open>x\<close> to.\<close>

definition expOf :: "rat \<Rightarrow> int" where
  "expOf x = max (ilog2 x) (- 1022)"

definition ulpOf :: "rat \<Rightarrow> rat" where
  "ulpOf x = 2 powi (expOf x - 52)"

text \<open>Arithmetic on Numbers: every finite result is rounded once, as IEEE-754 requires.\<close>

fun jneg :: "jsnum \<Rightarrow> jsnum" where
  "jneg NaN = NaN"
| "jneg PInf = NInf"
| "jneg NInf = PInf"
| "jneg (Fin q) = Fin (- q)"

fun Math_abs :: "jsnum \<Rightarrow> jsnum" where
  "Math_abs NaN = NaN"
| "Math_abs PInf = PInf"
| "Math_abs NInf = PInf"
| "Math_abs (Fin q) = Fin \<bar>q\<bar>"

fun jmul :: "jsnum \<Rightarrow> jsnum \<Rightarrow> jsnum" where
  "jmul NaN y = NaN"
| "jmul x NaN = NaN"
| "jmul (Fin a) (Fin b) = toDouble (a * b)"
| "jmul (Fin a) PInf = (if a = 0 then NaN else if 0 < a then PInf else NInf)"
| "jmul (Fin a) NInf = (if a = 0 then NaN else if 0 < a then NInf else PInf)"
| "jmul PInf (Fin b) = (if b = 0 then NaN else if 0 < b then PInf else NInf)"
| "jmul NInf (Fin b) = (if b = 0 then NaN else if 0 < b then NInf else PInf)"
| "jmul PInf PInf = PInf"
| "jmul PInf NInf = NInf"
| "jmul NInf PInf = NInf"
| "jmul NInf NInf = PInf"

fun jdiv :: "jsnum \<Rightarrow> jsnum \<Rightarrow> jsnum" where
  "jdiv NaN y = NaN"
| "jdiv x NaN = NaN"
| "jdiv (Fin a) (Fin b) =
     (if b = 0 then (if a = 0 then NaN else if 0 < a then PInf else NInf)
      else toDouble (a / b))"
| "jdiv (Fin a) PInf = Fin 0"
| "jdiv (Fin a) NInf = Fin 0"
| "jdiv PInf (Fin b) = (if 0 \<le> b then PInf else NInf)"
| "jdiv NInf (Fin b) = (if 0 \<le> b then NInf else PInf)"
| "jdiv PInf PInf = NaN"
| "jdiv PInf NInf = NaN"
| "jdiv NInf PInf = NaN"
| "jdiv NInf NInf = NaN"

fun jsub :: "jsnum \<Rightarrow> jsnum \<Rightarrow> jsnum" where
  "jsub NaN y = NaN"
| "jsub x NaN = NaN"
| "jsub (Fin a) (Fin b) = toDouble (a - b)"
| "jsub (Fin a) PInf = NInf"
| "jsub (Fin a) NInf = PInf"
| "jsub PInf (Fin b) = PInf"
| "jsub NInf (Fin b) = NInf"
| "jsub PInf PInf = NaN"
| "jsub PInf NInf = PInf"
| "jsub NInf PInf = NInf"
| "jsub NInf NInf = NaN"

text \<open>\<open>!x\<close> on a Number: zero and NaN are falsy.\<close>

definition falsy :: "jsnum \<Rightarrow> bool" where
  "falsy x = (x = NaN \<or> x = Fin 0)"

text \<open>\<open>Math.round\<close> rounds to the nearest integer, halves upwards, without rounding error.\<close>

fun Math_round :: "jsnum \<Rightarrow> jsnum" where
  "Math_round (Fin q) = Fin (of_int \<lfloor>q + 1 / 2\<rfloor>)"
| "Math_round x = x"

fun Math_min :: "jsnum \<Rightarrow> jsnum \<Rightarrow> jsnum" where
  "Math_min NaN y = NaN"
| "Math_min x NaN = NaN"
| "Math_min NInf y = NInf"
| "Math_min x NInf = NInf"
| "Math_min PInf y = y"
| "Math_min x PInf = x"
| "Math_min (Fin a) (Fin b) = Fin (min a b)"

fun Math_max :: "jsnum \<Rightarrow> jsnum \<Rightarrow> jsnum" where
  "Math_max NaN y = NaN"
| "Math_max x NaN = NaN"
| "Math_max PInf y = PInf"
| "Math_max x PInf = PInf"
| "Math_max NInf y = y"
| "Math_max x NInf = x"
| "Math_max (Fin a) (Fin b) = Fin (max a b)"

text \<open>
  \<open>Math.log10\<close>: ECMAScript fixes the special cases and leaves the value at any other
  positive finite argument to the engine (an implementation-approximated Number). That
  approximation is the parameter \<open>lg\<close>; nothing is assumed about it.
\<close>

fun Math_log10 :: "(rat \<Rightarrow> rat) \<Rightarrow> jsnum \<Rightarrow> jsnum" where
  "Math_log10 lg NaN = NaN"
| "Math_log10 lg PInf = PInf"
| "Math_log10 lg NInf = NaN"
| "Math_log10 lg (Fin q) =
     (if q = 1 then Fin 0 else if q = 0 then NInf else if q < 0 then NaN else Fin (lg q))"

text \<open>\<open>Number(bigint)\<close> rounds the integer to the nearest double.\<close>

definition Number_of_BigInt :: "int \<Rightarrow> jsnum" where
  "Number_of_BigInt n = toDouble (of_int n)"

text \<open>\<open>BigInt(number)\<close> throws a RangeError unless the Number is an integer.\<close>

fun BigInt_of_number :: "jsnum \<Rightarrow> js_error + int" where
  "BigInt_of_number (Fin q) = (if of_int \<lfloor>q\<rfloor> = q then Inr \<lfloor>q\<rfloor> else Inl RangeError)"
| "BigInt_of_number x = Inl RangeError"

text \<open>
  The time value of \<open>new Date(t)\<close>: NaN unless \<open>t\<close> is finite and within 8.64e15
  milliseconds of the epoch, and truncated towards zero then.
\<close>

fun Date_of :: "jsnum \<Rightarrow> jsnum" where
  "Date_of (Fin t) =
     (if \<bar>t\<bar> > 8640000000000000 then NaN
      else Fin (if 0 \<le> t then of_int \<lfloor>t\<rfloor> else - of_int \<lfloor>- t\<rfloor>))"
| "Date_of x = NaN"

subsection \<open>Strings and BigInt\<close>

text \<open>
  \<open>BigInt(string)\<close>: the text is trimmed; the empty text is \<open>0n\<close>; a \<open>0x\<close>, \<open>0o\<close> or
  \<open>0b\<close> prefix selects the radix and takes no sign; otherwise an optional sign and
  decimal digits. Anything else throws a SyntaxError. Only the ASCII white space of
  JavaScript is modelled.
\<close>

definition isWhiteSpace :: "char \<Rightarrow> bool" where
  "isWhiteSpace c = ((of_char c :: nat) \<in> {9, 10, 11, 12, 13, 32})"

definition trim :: "string \<Rightarrow> string" where
  "trim s = rev (dropWhile isWhiteSpace (rev (dropWhile isWhiteSpace s)))"

definition digitVal :: "char \<Rightarrow> nat option" where
  "digitVal c = (let n = (of_char c :: nat) in
     if 48 \<le> n \<and> n \<le> 57 then Some (n - 48)
     else if 97 \<le> n \<and> n \<le> 102 then Some (n - 87)
     else if 65 \<le> n \<and> n \<le> 70 then Some (n - 55)
     else None)"

fun parseDigitsAcc :: "nat \<Rightarrow> nat \<Rightarrow> string \<Rightarrow> nat option" where
  "parseDigitsAcc radix acc [] = Some acc"
| "parseDigitsAcc radix acc (c # cs) =
     (case digitVal c of
        None \<Rightarrow> None
      | Some d \<Rightarrow> if d < radix then parseDigitsAcc radix (acc * radix + d) cs else None)"

definition parseDigits :: "nat \<Rightarrow> string \<Rightarrow> nat option" where
  "parseDigits radix s = (if s = [] then None else parseDigitsAcc radix 0 s)"

definition BigInt_of_string :: "string \<Rightarrow> js_error + int" where
  "BigInt_of_string s =
     (let t = trim s;
          unsigned = (\<lambda>radix ds. case parseDigits radix ds of
                         None \<Rightarrow> Inl SyntaxError | Some n \<Rightarrow> Inr (int n))
      in if t = [] then Inr 0
         else if take 2 t = ''0x'' \<or> take 2 t = ''0X'' then unsigned 16 (drop 2 t)
         else if take 2 t = ''0o'' \<or> take 2 t = ''0O'' then unsigned 8 (drop 2 t)
         else if take 2 t = ''0b'' \<or> take 2 t = ''0B'' then unsigned 2 (drop 2 t)
         else if hd t = CHR ''-'' then
           (case parseDigits 10 (tl t) of None \<Rightarrow> Inl SyntaxError | Some n \<Rightarrow> Inr (- int n))
         else if hd t = CHR ''+'' then unsigned 10 (tl t)
         else unsigned 10 t)"

text \<open>
  BigInt division truncates towards zero and the remainder takes the sign of the
  dividend. The source only divides by powers of ten, so division by zero (a RangeError)
  is not a case here.
\<close>

definition BigInt_quot :: "int \<Rightarrow> int \<Rightarrow> int" where
  "BigInt_quot a b = sgn a * sgn b * (\<bar>a\<bar> div \<bar>b\<bar>)"

definition BigInt_rem :: "int \<Rightarrow> int \<Rightarrow> int" where
  "BigInt_rem a b = sgn a * (\<bar>a\<bar> mod \<bar>b\<bar>)"

text \<open>\<open>bigint.toString()\<close>: decimal digits, a minus sign before a negative value.\<close>

definition digitChar :: "nat \<Rightarrow> char" where
  "digitChar d = char_of (48 + d)"

fun natToString :: "nat \<Rightarrow> string" where
  "natToString n = (if n < 10 then [digitChar n] else natToString (n div 10) @ [digitChar (n mod 10)])"

declare natToString.simps [simp del]

definition BigInt_toString :: "int \<Rightarrow> string" where
  "BigInt_toString n = (if n < 0 then CHR ''-'' # natToString (nat (- n)) else natToString (nat n))"

definition padStart :: "nat \<Rightarrow> char \<Rightarrow> string \<Rightarrow> string" where
  "padStart targetLength c s = replicate (targetLength - length s) c @ s"

text \<open>\<open>s.slice(a, b)\<close> for indices \<open>0 \<le> a\<close> and \<open>0 \<le> b\<close>; both are clamped to the length.\<close>

definition String_slice :: "string \<Rightarrow> nat \<Rightarrow> nat \<Rightarrow> string" where
  "String_slice s a b = take (b - a) (drop a s)"

fun isPrefixOf :: "string \<Rightarrow> string \<Rightarrow> bool" where
  "isPrefixOf [] s = True"
| "isPrefixOf (p # ps) [] = False"
| "isPrefixOf (p # ps) (c # cs) = (p = c \<and> isPrefixOf ps cs)"

fun String_includes :: "string \<Rightarrow> string \<Rightarrow> bool" where
  "String_includes [] sub = (sub = [])"
| "String_includes (c # cs) sub = (isPrefixOf sub (c # cs) \<or> String_includes cs sub)"

text \<open>
  \<open>parseFloat\<close> reads the longest prefix that is a decimal literal (after leading white
  space: sign, \<open>Infinity\<close> or digits with an optional fraction and exponent) and rounds
  its exact value to a double; NaN when there is no such prefix.
\<close>

definition isDigit :: "char \<Rightarrow> bool" where
  "isDigit c = (48 \<le> (of_char c :: nat) \<and> (of_char c :: nat) \<le> 57)"

definition digitsNat :: "string \<Rightarrow> nat" where
  "digitsNat ds = foldl (\<lambda>acc c. acc * 10 + ((of_char c :: nat) - 48)) 0 ds"

definition exponentPart :: "string \<Rightarrow> int" where
  "exponentPart r =
     (if r \<noteq> [] \<and> (hd r = CHR ''e'' \<or> hd r = CHR ''E'') then
        let r' = tl r;
            neg = (r' \<noteq> [] \<and> hd r' = CHR ''-'');
            ds = takeWhile isDigit
                   (if r' \<noteq> [] \<and> (hd r' = CHR ''-'' \<or> hd r' = CHR ''+'') then tl r' else r')
        in if ds = [] then 0 else if neg then - int (digitsNat ds) else int (digitsNat ds)
      else 0)"

definition parseFloat :: "string \<Rightarrow> jsnum" where
  "parseFloat s =
     (let t = dropWhile isWhiteSpace s;
          neg = (t \<noteq> [] \<and> hd t = CHR ''-'');
          u = (if t \<noteq> [] \<and> (hd t = CHR ''-'' \<or> hd t = CHR ''+'') then tl t else t);
          signed = (\<lambda>x. if neg then jneg x else x)
      in if take 8 u = ''Infinity'' then signed PInf
         else
           let ip = takeWhile isDigit u;
               r1 = dropWhile isDigit u;
               dot = (r1 \<noteq> [] \<and> hd r1 = CHR ''.'');
               fp = (if dot then takeWhile isDigit (tl r1) else []);
               r2 = (if dot then dropWhile isDigit (tl r1) else r1)
           in if ip = [] \<and> fp = [] then NaN
              else signed (toDouble (of_nat (digitsNat (ip @ fp))
                     * 10 powi (exponentPart r2 - int (length fp)))))"

text \<open>
  \<open>parseInt(s, 16)\<close>: leading white space, a sign and a \<open>0x\<close> prefix are skipped, then the
  longest run of hexadecimal digits is read; NaN when that run is empty.
\<close>

definition parseInt16 :: "string \<Rightarrow> jsnum" where
  "parseInt16 s =
     (let t = dropWhile isWhiteSpace s;
          neg = (t \<noteq> [] \<and> hd t = CHR ''-'');
          u = (if t \<noteq> [] \<and> (hd t = CHR ''-'' \<or> hd t = CHR ''+'') then tl t else t);
          v = (if take 2 u = ''0x'' \<or> take 2 u = ''0X'' then drop 2 u else u);
          ds = takeWhile (\<lambda>c. digitVal c \<noteq> None) v
      in if ds = [] then NaN
         else case parseDigits 16 ds of
                None \<Rightarrow> NaN
              | Some n \<Rightarrow> if neg then jneg (toDouble (of_nat n)) else toDouble (of_nat n))"

section \<open>Unit converter\<close>

text \<open>
  \<open>_formatUnits(value, decimals)\<close>. \<open>BigInt(decimals)\<close> throws unless \<open>decimals\<close> is an
  integer, and \<open>10n ** e\<close> throws for a negative exponent. \<open>formatUnitsText\<close> is the
  template string handed to \<open>parseFloat\<close>. An engine also throws a RangeError once
  \<open>10n ** e\<close> or the padded string exceeds its size limit (an exponent of \<open>10^10\<close>, say);
  the model has unbounded integers and strings, so it stands for the code only while the
  decimals are small, and the properties below take them from 0 to 18.
\<close>

definition formatUnitsText :: "int \<Rightarrow> nat \<Rightarrow> string" where
  "formatUnitsText value d =
     (let divisor = 10 ^ d;
          intPart = BigInt_quot value divisor;
          fracPart = BigInt_rem value divisor;
          fracStr = padStart d (CHR ''0'') (BigInt_toString fracPart)
      in BigInt_toString intPart @ ''.'' @ fracStr)"

definition formatUnits :: "int \<Rightarrow> jsnum \<Rightarrow> js_error + jsnum" where
  "formatUnits value decimals =
     (case BigInt_of_number decimals of
        Inl e \<Rightarrow> Inl e
      | Inr d \<Rightarrow> if d < 0 then Inl RangeError
                 else Inr (parseFloat (formatUnitsText value (nat d))))"

text \<open>\<open>rateToApy(rawRateStr)\<close> of the position fetcher.\<close>

definition rateToApy :: "string \<Rightarrow> js_error + jsnum" where
  "rateToApy rawRateStr =
     (case BigInt_of_string rawRateStr of
        Inl e \<Rightarrow> Inl e
      | Inr raw \<Rightarrow>
          let abs = (if raw < 0 then - raw else raw);
              sign = (if raw < 0 then Fin (- 1) else Fin 1)
          in if abs > 10 ^ 18 then
               let scaled = Number_of_BigInt (abs div 10 ^ 23)
               in Inr (jdiv (jmul sign scaled) (Fin 100))
             else Inr (jdiv (jmul sign (Number_of_BigInt abs)) (Fin 100)))"

text \<open>
  The specification's reading of \<open>rateToApy\<close>, for comparison with the code: the sign of
  the rate times the scaled magnitude, the magnitude being divided by \<open>10^23\<close> first when
  it exceeds \<open>10^18\<close>, and by 100 in both cases.
\<close>

definition rateToApy_spec :: "int \<Rightarrow> jsnum" where
  "rateToApy_spec r =
     jmul (Fin (of_int (sgn r)))
       (jdiv (Number_of_BigInt (if \<bar>r\<bar> > 10 ^ 18 then \<bar>r\<bar> div 10 ^ 23 else \<bar>r\<bar>)) (Fin 100))"

text \<open>
  The specification's round trip of a decimal back to base units, \<open>round(decimal * 10^d)\<close>.
  It is a test property of the specification and no function of the source.
\<close>

definition reconstruct :: "jsnum \<Rightarrow> nat \<Rightarrow> jsnum" where
  "reconstruct decimal d = Math_round (jmul decimal (Fin (10 ^ d)))"

text \<open>The Numbers that are doubles; every arithmetic result is one.\<close>

fun isDouble :: "jsnum \<Rightarrow> bool" where
  "isDouble (Fin y) = (toDouble y = Fin y)"
| "isDouble x = True"

text \<open>
  \<open>_inferDecimals(rawStr, formattedAmount)\<close>; \<open>None\<close> stands for a missing (undefined)
  argument.
\<close>

definition inferDecimals :: "(rat \<Rightarrow> rat) \<Rightarrow> string option \<Rightarrow> jsnum option \<Rightarrow> jsnum" where
  "inferDecimals lg rawStr formattedAmount =
     (case (rawStr, formattedAmount) of
        (Some r, Some f) \<Rightarrow>
          if r = [] \<or> r = ''0'' \<or> falsy f \<or> f = Fin 0 then Fin 18
          else
            let raw = parseFloat r;
                ratio = jdiv raw f;
                decimals = Math_round (Math_log10 lg ratio)
            in Math_max (Fin 0) (Math_min decimals (Fin 18))
      | _ \<Rightarrow> Fin 18)"

text \<open>
  The inputs of \<open>_inferDecimals\<close> that claim C10 speaks about: the default inputs, and a raw
  string that parses to a positive finite Number with a positive finite formatted amount.
\<close>

fun positiveFinite :: "jsnum \<Rightarrow> bool" where
  "positiveFinite (Fin q) = (0 < q)"
| "positiveFinite x = False"

definition defaultInput :: "string option \<Rightarrow> jsnum option \<Rightarrow> bool" where
  "defaultInput rawStr formattedAmount =
     (rawStr = None \<or> rawStr = Some [] \<or> rawStr = Some ''0''
      \<or> formattedAmount = None \<or> formattedAmount = Some (Fin 0))"

definition positiveInput :: "string option \<Rightarrow> jsnum option \<Rightarrow> bool" where
  "positiveInput rawStr formattedAmount =
     (case (rawStr, formattedAmount) of
        (Some r, Some f) \<Rightarrow> positiveFinite (parseFloat r) \<and> positiveFinite f
      | _ \<Rightarrow> False)"

section \<open>Event log decoder\<close>

text \<open>
  \<open>_decodeInt256(hexWord)\<close>: the word is read as an unsigned BigInt and, above
  \<open>MAX_INT256\<close>, shifted down by \<open>2^256\<close>. A word that BigInt cannot read throws.
\<close>

definition decodeInt256 :: "string \<Rightarrow> js_error + int" where
  "decodeInt256 hexWord =
     (case BigInt_of_string (''0x'' @ hexWord) of
        Inl e \<Rightarrow> Inl e
      | Inr val \<Rightarrow>
          let MAX_INT256 = 2 ^ 255 - 1
          in if val > MAX_INT256 then Inr (val - 2 ^ 256) else Inr val)"

text \<open>
  The unsigned value of a big-endian hexadecimal word, written as the positional sum
  rather than as the parser computes it.
\<close>

definition isHexWord :: "string \<Rightarrow> bool" where
  "isHexWord w = (length w = 64 \<and> list_all (\<lambda>c. digitVal c \<noteq> None) w)"

definition hexValue :: "string \<Rightarrow> nat" where
  "hexValue w = (\<Sum>i < length w. the (digitVal (w ! i)) * 16 ^ (length w - 1 - i))"

text \<open>
  The records of the transaction-history fetcher. \<open>pos_supply\<close> and \<open>pos_borrow\<close> are the
  fields \<open>supply\<close> and \<open>borrow\<close> of a position object, \<open>collateral\<close> and \<open>debt\<close> its
  \<open>formatted.collateral\<close> and \<open>formatted.debt\<close>, and the vault fields its \<open>vaultData\<close>.
\<close>

record token_amount =
  tok_amount :: jsnum
  tok_symbol :: string
  tok_name :: string

record position =
  nftId :: string
  pos_supply :: string
  pos_borrow :: string
  vaultAddress :: string
  supplyToken :: string
  borrowToken :: string
  collateral :: token_amount
  debt :: token_amount

record vault_info =
  nftIds :: "int set"
  vi_supplyToken :: string
  vi_borrowToken :: string
  supplySymbol :: string
  borrowSymbol :: string
  supplyName :: string
  borrowName :: string
  supplyDecimals :: jsnum
  borrowDecimals :: jsnum

record log_entry =
  data :: "string option"
  timeStamp :: string
  transactionHash :: string

record tx_row =
  date :: jsnum
  timestamp :: jsnum
  description :: string
  asset :: string
  amount :: jsnum
  symbol :: string
  usdValue :: jsnum
  txHash :: string
  isRepayOrWithdraw :: bool

text \<open>
  \<open>prices[symbol] || 0\<close>, for a \<open>prices\<close> object read through its own properties, which
  are Numbers; properties inherited from \<open>Object.prototype\<close> are not modelled.
\<close>

definition priceOrZero :: "(string \<Rightarrow> jsnum option) \<Rightarrow> string \<Rightarrow> jsnum" where
  "priceOrZero prices s =
     (case prices s of None \<Rightarrow> Fin 0 | Some p \<Rightarrow> if falsy p then Fin 0 else p)"

definition word :: "string \<Rightarrow> nat \<Rightarrow> string" where
  "word hex i = String_slice hex (i * 64) ((i + 1) * 64)"

text \<open>
  \<open>decodeEvent(log, vaultInfo, prices)\<close>. Every exception raised inside the \<open>try\<close> block is
  caught and turns into \<open>null\<close>, which is \<open>None\<close> here, as are the two early returns.
\<close>

definition decodeEvent ::
  "log_entry \<Rightarrow> vault_info \<Rightarrow> (string \<Rightarrow> jsnum option) \<Rightarrow> (int \<times> tx_row list) option" where
  "decodeEvent entry vaultInfo prices =
     (case data entry of
        None \<Rightarrow> None
      | Some d \<Rightarrow>
          if d = [] \<or> length d < 2 + 64 * 5 then None
          else
            let hex = drop 2 d in
            case BigInt_of_string (''0x'' @ word hex 1) of Inl e \<Rightarrow> None | Inr nft \<Rightarrow>
            case decodeInt256 (word hex 2) of Inl e \<Rightarrow> None | Inr colAmt \<Rightarrow>
            case decodeInt256 (word hex 3) of Inl e \<Rightarrow> None | Inr debtAmt \<Rightarrow>
            let timestamp = parseInt16 (timeStamp entry);
                date = Date_of (jmul timestamp (Fin 1000));
                txHash = transactionHash entry;
                colRows =
                  (if colAmt \<noteq> 0 then
                     let isDeposit = (colAmt > 0);
                         absAmt = (if colAmt > 0 then colAmt else - colAmt)
                     in case formatUnits absAmt (supplyDecimals vaultInfo) of
                          Inl e \<Rightarrow> Inl e
                        | Inr amt \<Rightarrow>
                            let price = priceOrZero prices (supplySymbol vaultInfo)
                            in Inr [\<lparr>date = date, timestamp = timestamp,
                                    description = (if isDeposit then ''Collateral Deposit''
                                                   else ''Collateral Withdrawal''),
                                    asset = supplySymbol vaultInfo,
                                    amount = (if isDeposit then amt else jneg amt),
                                    symbol = supplySymbol vaultInfo,
                                    usdValue = jmul (Math_abs amt) price,
                                    txHash = txHash,
                                    isRepayOrWithdraw = (\<not> isDeposit)\<rparr>]
                   else Inr []);
                debtRows =
                  (if debtAmt \<noteq> 0 then
                     let isBorrow = (debtAmt > 0);
                         absAmt = (if debtAmt > 0 then debtAmt else - debtAmt)
                     in case formatUnits absAmt (borrowDecimals vaultInfo) of
                          Inl e \<Rightarrow> Inl e
                        | Inr amt \<Rightarrow>
                            let price = priceOrZero prices (borrowSymbol vaultInfo)
                            in Inr [\<lparr>date = date, timestamp = timestamp,
                                    description = (if isBorrow then ''Margin Loan''
                                                   else ''Loan Repayment''),
                                    asset = borrowSymbol vaultInfo,
                                    amount = (if isBorrow then amt else jneg amt),
                                    symbol = borrowSymbol vaultInfo,
                                    usdValue = jmul (Math_abs amt) price,
                                    txHash = txHash,
                                    isRepayOrWithdraw = (\<not> isBorrow)\<rparr>]
                   else Inr [])
            in case colRows of Inl e \<Rightarrow> None | Inr rows1 \<Rightarrow>
               case debtRows of Inl e \<Rightarrow> None | Inr rows2 \<Rightarrow>
                 if rows1 @ rows2 = [] then None else Some (nft, rows1 @ rows2))"

text \<open>
  A well-formed raw log: the payload holds the \<open>0x\<close> prefix and at least five 32-byte
  words, of which the decoder reads words 1 to 3. \<open>signedWord\<close> is the two's-complement
  value of a word of the payload.
\<close>

definition wellFormedLog :: "log_entry \<Rightarrow> bool" where
  "wellFormedLog entry =
     (case data entry of
        None \<Rightarrow> False
      | Some d \<Rightarrow> 2 + 64 * 5 \<le> length d
                  \<and> isHexWord (word (drop 2 d) 1)
                  \<and> isHexWord (word (drop 2 d) 2)
                  \<and> isHexWord (word (drop 2 d) 3))"

definition payloadWord :: "log_entry \<Rightarrow> nat \<Rightarrow> string" where
  "payloadWord entry i = (case data entry of None \<Rightarrow> [] | Some d \<Rightarrow> word (drop 2 d) i)"

definition signedWord :: "log_entry \<Rightarrow> nat \<Rightarrow> int" where
  "signedWord entry i = sint (word_of_int (int (hexValue (payloadWord entry i))) :: 256 word)"

text \<open>The descriptions of the rows that a collateral delta and a debt delta give rise to.\<close>

definition colLabels :: "int \<Rightarrow> string list" where
  "colLabels c = (if 0 < c then [''Collateral Deposit''] else if c < 0 then [''Collateral Withdrawal''] else [])"

definition debtLabels :: "int \<Rightarrow> string list" where
  "debtLabels c = (if 0 < c then [''Margin Loan''] else if c < 0 then [''Loan Repayment''] else [])"

text \<open>An example log (collateral +1500000, debt -1000, position 42) and vault.\<close>

definition exampleLog :: log_entry where
  "exampleLog = \<lparr>data = Some ''0x000000000000000000000000aaaaaaaaaaaaaaaaaaaaaaaaaaaaaaaaaaaaaaaa000000000000000000000000000000000000000000000000000000000000002a000000000000000000000000000000000000000000000000000000000016e360fffffffffffffffffffffffffffffffffffffffffffffffffffffffffffffc18000000000000000000000000bbbbbbbbbbbbbbbbbbbbbbbbbbbbbbbbbbbbbbbb'',
     timeStamp = ''0x64'', transactionHash = ''0xabc''\<rparr>"

definition exampleInfo :: vault_info where
  "exampleInfo = \<lparr>nftIds = {42}, vi_supplyToken = ''0xs'', vi_borrowToken = ''0xb'',
     supplySymbol = ''WETH'', borrowSymbol = ''USDC'', supplyName = ''Wrapped Ether'',
     borrowName = ''USD Coin'', supplyDecimals = Fin 6, borrowDecimals = Fin 3\<rparr>"

section \<open>Paginated fetch controller\<close>

text \<open>
  The log API is the environment. A request carries the vault address, the page and the
  page size (the other parameters are constants). \<open>fetch\<close> answers a request in a world
  state and \<open>delay\<close> lets time pass; both return the next world state. A response is a
  rejected \<open>fetch\<close>, a non-success HTTP status, a body that is not JSON, or a JSON body
  with its \<open>status\<close>, \<open>message\<close> and \<open>result\<close>.
\<close>

record request =
  address :: string
  page :: nat
  offset :: nat

datatype json_result = NoResult | ResultText string | ResultLogs "log_entry list"

record api_json =
  status :: string
  message :: string
  result :: json_result

datatype response = Rejected | HttpError nat | BadBody | Body api_json

record 'w env =
  fetch :: "'w \<Rightarrow> request \<Rightarrow> response \<times> 'w"
  delay :: "nat \<Rightarrow> 'w \<Rightarrow> 'w"

definition MAX_RESULTS_PER_PAGE :: nat where
  "MAX_RESULTS_PER_PAGE = 1000"

definition REQUEST_DELAY_MS :: nat where
  "REQUEST_DELAY_MS = 220"

text \<open>
  \<open>json.result || []\<close> spread into the array: a list of logs as it is; a non-empty string
  contributes its characters, none of which carries a \<open>data\<close> field.
\<close>

definition resultLogs :: "json_result \<Rightarrow> log_entry list" where
  "resultLogs r =
     (case r of
        NoResult \<Rightarrow> []
      | ResultText t \<Rightarrow> map (\<lambda>c. \<lparr>data = None, timeStamp = ''undefined'', transactionHash = []\<rparr>) t
      | ResultLogs ls \<Rightarrow> ls)"

definition isRateLimit :: "json_result \<Rightarrow> bool" where
  "isRateLimit r = (case r of ResultText t \<Rightarrow> t \<noteq> [] \<and> String_includes t ''rate limit'' | _ \<Rightarrow> False)"

text \<open>The request for one page of the logs of a vault.\<close>

definition logsRequest :: "string \<Rightarrow> nat \<Rightarrow> request" where
  "logsRequest vaultAddr pg = \<lparr>address = vaultAddr, page = pg, offset = MAX_RESULTS_PER_PAGE\<rparr>"

text \<open>One iteration of the \<open>while (true)\<close> loop of \<open>fetchVaultEvents\<close>.\<close>

datatype 'w iteration =
  Continue "log_entry list" nat 'w
| Finish "js_error + log_entry list" 'w

definition fetchPage ::
  "'w env \<Rightarrow> string \<Rightarrow> log_entry list \<Rightarrow> nat \<Rightarrow> 'w \<Rightarrow> 'w iteration" where
  "fetchPage env vaultAddr allLogs pg w =
     (case fetch env w (logsRequest vaultAddr pg) of
        (Rejected, w') \<Rightarrow> Finish (Inl FetchRejected) w'
      | (HttpError st, w') \<Rightarrow> Finish (Inl (ApiError st)) w'
      | (BadBody, w') \<Rightarrow> Finish (Inl SyntaxError) w'
      | (Body json, w') \<Rightarrow>
          if status json = ''0'' then
            if message json = ''No records found'' then Finish (Inr allLogs) w'
            else if isRateLimit (result json) then Continue allLogs pg (delay env 1000 w')
            else Finish (Inr allLogs) w'
          else
            let logs = resultLogs (result json)
            in if length logs < MAX_RESULTS_PER_PAGE then Finish (Inr (allLogs @ logs)) w'
               else Continue (allLogs @ logs) (pg + 1) (delay env REQUEST_DELAY_MS w'))"

text \<open>The loop may run forever (a source that always answers with a rate limit).\<close>

partial_function (option) fetchLoop ::
  "'w env \<Rightarrow> string \<Rightarrow> log_entry list \<Rightarrow> nat \<Rightarrow> 'w \<Rightarrow> ((js_error + log_entry list) \<times> 'w) option" where
  "fetchLoop env vaultAddr allLogs pg w =
     (case fetchPage env vaultAddr allLogs pg w of
        Continue allLogs' pg' w' \<Rightarrow> fetchLoop env vaultAddr allLogs' pg' w'
      | Finish r w' \<Rightarrow> Some (r, w'))"

definition fetchVaultEvents ::
  "'w env \<Rightarrow> string \<Rightarrow> 'w \<Rightarrow> ((js_error + log_entry list) \<times> 'w) option" where
  "fetchVaultEvents env vaultAddr w = fetchLoop env vaultAddr [] 1 w"


text \<open>
  A log source that answers every request for page \<open>p\<close> with the successful response
  holding \<open>pages p\<close>; its world is the list of the requests it has received. Two more
  sources serve one full page and answer every later request with HTTP status 500, or with
  a JSON error that is neither a rate limit nor \<open>No records found\<close>.
\<close>

definition pageResponse :: "log_entry list \<Rightarrow> response" where
  "pageResponse logs = Body \<lparr>status = ''1'', message = ''OK'', result = ResultLogs logs\<rparr>"

definition pagedSource :: "(nat \<Rightarrow> log_entry list) \<Rightarrow> (request list) env" where
  "pagedSource pages =
     \<lparr>fetch = (\<lambda>reqs rq. (pageResponse (pages (page rq)), reqs @ [rq])),
      delay = (\<lambda>ms reqs. reqs)\<rparr>"



definition twoPages :: "nat \<Rightarrow> log_entry list" where
  "twoPages p = (if p = 1 then replicate 1000 exampleLog else replicate 400 exampleLog)"

section \<open>Transaction history assembler\<close>

definition getDecimals_supply :: "(rat \<Rightarrow> rat) \<Rightarrow> position \<Rightarrow> jsnum" where
  "getDecimals_supply lg pos = inferDecimals lg (Some (pos_supply pos)) (Some (tok_amount (collateral pos)))"

definition getDecimals_borrow :: "(rat \<Rightarrow> rat) \<Rightarrow> position \<Rightarrow> jsnum" where
  "getDecimals_borrow lg pos = inferDecimals lg (Some (pos_borrow pos)) (Some (tok_amount (debt pos)))"

text \<open>
  The \<open>Map\<close> from vault address to vault information keeps insertion order, so it is an
  association list. The first position of a vault fixes the information; every position
  adds its id. \<open>BigInt(pos.nftId)\<close> may throw.
\<close>

fun updateInfo ::
  "string \<Rightarrow> (vault_info \<Rightarrow> vault_info) \<Rightarrow> (string \<times> vault_info) list \<Rightarrow> (string \<times> vault_info) list" where
  "updateInfo k f [] = []"
| "updateInfo k f ((k', v) # m) = (if k' = k then (k', f v) # m else (k', v) # updateInfo k f m)"

fun groupByVault ::
  "(rat \<Rightarrow> rat) \<Rightarrow> position list \<Rightarrow> (string \<times> vault_info) list
     \<Rightarrow> js_error + (string \<times> vault_info) list" where
  "groupByVault lg [] vaultMap = Inr vaultMap"
| "groupByVault lg (pos # rest) vaultMap =
     (let vaultAddr = vaultAddress pos;
          vaultMap1 =
            (if map_of vaultMap vaultAddr = None then
               vaultMap @ [(vaultAddr,
                 \<lparr>nftIds = {},
                  vi_supplyToken = supplyToken pos,
                  vi_borrowToken = borrowToken pos,
                  supplySymbol = tok_symbol (collateral pos),
                  borrowSymbol = tok_symbol (debt pos),
                  supplyName = tok_name (collateral pos),
                  borrowName = tok_name (debt pos),
                  supplyDecimals = getDecimals_supply lg pos,
                  borrowDecimals = getDecimals_borrow lg pos\<rparr>)]
             else vaultMap)
      in case BigInt_of_string (nftId pos) of
           Inl e \<Rightarrow> Inl e
         | Inr n \<Rightarrow>
             groupByVault lg rest
               (updateInfo vaultAddr (\<lambda>info. info\<lparr>nftIds := insert n (nftIds info)\<rparr>) vaultMap1))"

text \<open>The inner loop over the logs of one vault, pushing rows onto \<open>allTransactions\<close>.\<close>

fun pushRows ::
  "vault_info \<Rightarrow> (string \<Rightarrow> jsnum option) \<Rightarrow> log_entry list \<Rightarrow> tx_row list \<Rightarrow> tx_row list" where
  "pushRows info prices [] allTransactions = allTransactions"
| "pushRows info prices (entry # logs) allTransactions =
     (case decodeEvent entry info prices of
        None \<Rightarrow> pushRows info prices logs allTransactions
      | Some (n, rows) \<Rightarrow>
          if n \<notin> nftIds info then pushRows info prices logs allTransactions
          else pushRows info prices logs (allTransactions @ rows))"

text \<open>The outer loop over the vaults; an exception of \<open>fetchVaultEvents\<close> propagates.\<close>

fun fetchAllVaults ::
  "'w env \<Rightarrow> (string \<Rightarrow> jsnum option) \<Rightarrow> (string \<times> vault_info) list \<Rightarrow> tx_row list \<Rightarrow> 'w
     \<Rightarrow> ((js_error + tx_row list) \<times> 'w) option" where
  "fetchAllVaults env prices [] allTransactions w = Some (Inr allTransactions, w)"
| "fetchAllVaults env prices ((vaultAddr, info) # rest) allTransactions w =
     (case fetchVaultEvents env vaultAddr w of
        None \<Rightarrow> None
      | Some (Inl e, w') \<Rightarrow> Some (Inl e, w')
      | Some (Inr logs, w') \<Rightarrow>
          fetchAllVaults env prices rest (pushRows info prices logs allTransactions) w')"

text \<open>
  \<open>allTransactions.sort((a, b) => b.timestamp - a.timestamp)\<close>. ECMAScript requires a
  stable sort, reads a NaN from the comparator as \<open>+0\<close>, and fixes the result whenever the
  comparator is a consistent ordering; insertion from the right is such a sort. With a NaN
  timestamp the comparator is not a consistent ordering and the standard leaves the order
  to the engine: the model then gives one admissible order, which need not be the one of a
  given engine.
\<close>

definition compareRows :: "tx_row \<Rightarrow> tx_row \<Rightarrow> jsnum" where
  "compareRows a b = jsub (timestamp b) (timestamp a)"

fun isPositive :: "jsnum \<Rightarrow> bool" where
  "isPositive PInf = True"
| "isPositive (Fin q) = (0 < q)"
| "isPositive x = False"

fun insertBy :: "('a \<Rightarrow> 'a \<Rightarrow> jsnum) \<Rightarrow> 'a \<Rightarrow> 'a list \<Rightarrow> 'a list" where
  "insertBy cmp x [] = [x]"
| "insertBy cmp x (y # ys) = (if isPositive (cmp x y) then y # insertBy cmp x ys else x # y # ys)"

definition Array_sort :: "('a \<Rightarrow> 'a \<Rightarrow> jsnum) \<Rightarrow> 'a list \<Rightarrow> 'a list" where
  "Array_sort cmp xs = foldr (insertBy cmp) xs []"

definition fetchForPositions ::
  "(rat \<Rightarrow> rat) \<Rightarrow> 'w env \<Rightarrow> position list \<Rightarrow> (string \<Rightarrow> jsnum option) \<Rightarrow> 'w
     \<Rightarrow> ((js_error + tx_row list) \<times> 'w) option" where
  "fetchForPositions lg env positions prices w =
     (case groupByVault lg positions [] of
        Inl e \<Rightarrow> Some (Inl e, w)
      | Inr vaultMap \<Rightarrow>
          (case fetchAllVaults env prices vaultMap [] w of
             None \<Rightarrow> None
           | Some (Inl e, w') \<Rightarrow> Some (Inl e, w')
           | Some (Inr allTransactions, w') \<Rightarrow> Some (Inr (Array_sort compareRows allTransactions), w')))"

text \<open>
  The order of the Numbers other than NaN, and the Numbers that are integers or infinite:
  these are the values of \<open>parseInt\<close>, NaN apart.
\<close>

fun jle :: "jsnum \<Rightarrow> jsnum \<Rightarrow> bool" where
  "jle NaN y = False"
| "jle x NaN = False"
| "jle NInf y = True"
| "jle x PInf = True"
| "jle (Fin a) (Fin b) = (a \<le> b)"
| "jle x y = False"

fun integralNum :: "jsnum \<Rightarrow> bool" where
  "integralNum (Fin q) = (of_int \<lfloor>q\<rfloor> = q)"
| "integralNum NaN = False"
| "integralNum x = True"

text \<open>
  A log is owned when it decodes and the emitted id is one of the vault's owned ids;
  \<open>decodedRows\<close> are the rows of its decoding. \<open>ownedIds\<close> are the ids of the caller's
  positions on a vault. \<open>fetchAllLogs\<close> is the fetch phase of \<open>fetchForPositions\<close> alone: the
  logs that the request for each vault returned, in the order of the vaults. \<open>descending\<close>
  says that a ledger is ordered by timestamp, latest first.
\<close>

definition isOwnedLog :: "vault_info \<Rightarrow> (string \<Rightarrow> jsnum option) \<Rightarrow> log_entry \<Rightarrow> bool" where
  "isOwnedLog info prices entry =
     (case decodeEvent entry info prices of
        None \<Rightarrow> False
      | Some (n, rows) \<Rightarrow> n \<in> nftIds info)"

definition decodedRows :: "vault_info \<Rightarrow> (string \<Rightarrow> jsnum option) \<Rightarrow> log_entry \<Rightarrow> tx_row list" where
  "decodedRows info prices entry =
     (case decodeEvent entry info prices of
        None \<Rightarrow> []
      | Some (n, rows) \<Rightarrow> rows)"

definition ownedLedger ::
  "(string \<Rightarrow> jsnum option) \<Rightarrow> (vault_info \<times> log_entry list) list \<Rightarrow> tx_row list" where
  "ownedLedger prices fetched =
     concat (map (\<lambda>(info, logs).
       concat (map (decodedRows info prices) (filter (isOwnedLog info prices) logs))) fetched)"

definition descending :: "tx_row list \<Rightarrow> bool" where
  "descending rows = sorted_wrt (\<lambda>a b. jle (timestamp b) (timestamp a)) rows"

definition ownedIds :: "position list \<Rightarrow> string \<Rightarrow> int set" where
  "ownedIds positions vaultAddr =
     set (concat (map (\<lambda>pos. if vaultAddress pos = vaultAddr
                              then (case BigInt_of_string (nftId pos) of Inl e \<Rightarrow> [] | Inr n \<Rightarrow> [n])
                              else []) positions))"

fun fetchAllLogs ::
  "'w env \<Rightarrow> (string \<times> vault_info) list \<Rightarrow> 'w
     \<Rightarrow> ((js_error + (vault_info \<times> log_entry list) list) \<times> 'w) option" where
  "fetchAllLogs env [] w = Some (Inr [], w)"
| "fetchAllLogs env ((vaultAddr, info) # rest) w =
     (case fetchVaultEvents env vaultAddr w of
        None \<Rightarrow> None
      | Some (Inl e, w') \<Rightarrow> Some (Inl e, w')
      | Some (Inr logs, w') \<Rightarrow>
          (case fetchAllLogs env rest w' of
             None \<Rightarrow> None
           | Some (Inl e, w'') \<Rightarrow> Some (Inl e, w'')
           | Some (Inr fetched, w'') \<Rightarrow> Some (Inr ((info, logs) # fetched), w'')))"

text \<open>
  Example inputs of the assembler: the example log at another time, a log of the same
  vault that carries the id 43 of somebody else's position, the caller's position 42 with
  the vault information it is grouped under, and two one-page log sources.
\<close>

definition exampleLogAt :: "string \<Rightarrow> log_entry" where
  "exampleLogAt ts = exampleLog\<lparr>timeStamp := ts\<rparr>"

definition foreignLog :: log_entry where
  "foreignLog = \<lparr>data = Some ''0x000000000000000000000000aaaaaaaaaaaaaaaaaaaaaaaaaaaaaaaaaaaaaaaa000000000000000000000000000000000000000000000000000000000000002b000000000000000000000000000000000000000000000000000000000016e360fffffffffffffffffffffffffffffffffffffffffffffffffffffffffffffc18000000000000000000000000bbbbbbbbbbbbbbbbbbbbbbbbbbbbbbbbbbbbbbbb'',
     timeStamp = ''0x64'', transactionHash = ''0xdef''\<rparr>"

definition examplePosition :: position where
  "examplePosition = \<lparr>nftId = ''42'', pos_supply = ''0'', pos_borrow = ''0'',
     vaultAddress = ''0xvault'', supplyToken = ''0xs'', borrowToken = ''0xb'',
     collateral = \<lparr>tok_amount = Fin 0, tok_symbol = ''WETH'', tok_name = ''Wrapped Ether''\<rparr>,
     debt = \<lparr>tok_amount = Fin 0, tok_symbol = ''USDC'', tok_name = ''USD Coin''\<rparr>\<rparr>"

definition groupedInfo :: vault_info where
  "groupedInfo = exampleInfo\<lparr>supplyDecimals := Fin 18, borrowDecimals := Fin 18\<rparr>"

definition threeLogs :: "nat \<Rightarrow> log_entry list" where
  "threeLogs p = [exampleLogAt ''0x64'', exampleLogAt ''0x12c'', exampleLogAt ''0xc8'']"

definition mixedLogs :: "nat \<Rightarrow> log_entry list" where
  "mixedLogs p = [foreignLog, exampleLog]"

text \<open>
  Three logs of which the second has no hexadecimal \<open>timeStamp\<close>, and the ledger of a
  run (empty when the run throws).
\<close>

definition nanLogs :: "nat \<Rightarrow> log_entry list" where
  "nanLogs p = [exampleLogAt ''0x64'', exampleLogAt [], exampleLogAt ''0x12c'']"

definition ledgerOf :: "((js_error + tx_row list) \<times> 'w) option \<Rightarrow> tx_row list" where
  "ledgerOf res = (case res of Some (Inr ledger, w) \<Rightarrow> ledger | _ \<Rightarrow> [])"

text \<open>
  A second position of the caller on the example vault, with 1.5 units of a 6-decimal
  collateral, and a digit-counting logarithm to base 10 that stands for the engine's
  \<open>Math.log10\<close> in the examples (it is exact on the powers of 10).
\<close>

definition fundedPosition :: position where
  "fundedPosition = examplePosition\<lparr>nftId := ''43'', pos_supply := ''1500000'',
     collateral := \<lparr>tok_amount = Fin (3 / 2), tok_symbol = ''WETH'', tok_name = ''Wrapped Ether''\<rparr>\<rparr>"

definition floorLog10 :: "rat \<Rightarrow> rat" where
  "floorLog10 q = of_nat (floorlog 10 (nat \<lfloor>q\<rfloor>)) - 1"

section \<open>Properties of rounding to a double\<close>

lemma p2_less_iff: "(2::rat) powi a < 2 powi b \<longleftrightarrow> a < b"
proof
  assume "(2::rat) powi a < 2 powi b"
  show "a < b"
  proof (rule ccontr)
    assume "\<not> a < b"
    then have "b \<le> a" by simp
    then have "(2::rat) powi b \<le> 2 powi a" by (intro power_int_increasing) simp_all
    with \<open>(2::rat) powi a < 2 powi b\<close> show False by simp
  qed
next
  assume "a < b"
  then show "(2::rat) powi a < 2 powi b" by (intro power_int_strict_increasing) simp_all
qed

lemma p2_le_iff: "(2::rat) powi a \<le> 2 powi b \<longleftrightarrow> a \<le> b"
  using p2_less_iff [of b a] by (simp add: not_less [symmetric])

lemma p2_pos: "0 < (2::rat) powi a"
  by simp

lemma p2_add: "(2::rat) powi (a + b) = 2 powi a * 2 powi b"
  by (simp add: power_int_add)

lemma p2_diff: "(2::rat) powi (a - b) = 2 powi a / 2 powi b"
  by (simp add: power_int_diff)

lemma p2_Suc: "(2::rat) powi (a + 1) = 2 * 2 powi a"
  by (simp add: power_int_add)

lemma bitlen_p2_bounds:
  assumes "0 < p"
  shows "(2::rat) powi (bitlen p - 1) \<le> of_int p" "of_int p < (2::rat) powi (bitlen p)"
proof -
  from assms have b1: "1 \<le> bitlen p" by (simp add: bitlen_alt_def)
  from bitlen_bounds [OF assms]
  have lo: "2 ^ nat (bitlen p - 1) \<le> p" and hi: "p < 2 ^ nat (bitlen p)" by simp_all
  have "(2::rat) powi (bitlen p - 1) = 2 ^ nat (bitlen p - 1)"
    using b1 by (simp add: power_int_nonneg_exp)
  also have "\<dots> = of_int (2 ^ nat (bitlen p - 1))" by simp
  also have "\<dots> \<le> of_int p" using lo by (simp only: of_int_le_iff)
  finally show "(2::rat) powi (bitlen p - 1) \<le> of_int p" .
  have "(of_int p :: rat) < of_int (2 ^ nat (bitlen p))" using hi by (simp only: of_int_less_iff)
  also have "\<dots> = 2 ^ nat (bitlen p)" by simp
  also have "\<dots> = (2::rat) powi (bitlen p)"
    using b1 by (simp add: power_int_nonneg_exp)
  finally show "of_int p < (2::rat) powi (bitlen p)" .
qed

lemma ilog2_bounds:
  assumes "0 < a"
  shows "2 powi (ilog2 a) \<le> a" "a < 2 powi (ilog2 a + 1)"
proof -
  obtain p q where pq: "quotient_of a = (p, q)" by (cases "quotient_of a")
  then have q: "0 < q" by (rule quotient_of_denom_pos)
  have a: "a = of_int p / of_int q" using pq by (rule quotient_of_div)
  with assms q have p: "0 < p" by (simp add: zero_less_divide_iff)
  define k where "k = bitlen p - bitlen q"
  have il: "ilog2 a = (if 2 powi k \<le> a then k else k - 1)"
    by (simp add: ilog2_def pq k_def Let_def)
  have qpos: "(0::rat) < of_int q" using q by simp
  have lo: "(2::rat) powi (k - 1) < a"
  proof -
    have "(2::rat) powi (k - 1) * of_int q < 2 powi (k - 1) * 2 powi (bitlen q)"
      using bitlen_p2_bounds(2) [OF q] by (intro mult_strict_left_mono) simp_all
    also have "\<dots> = 2 powi (bitlen p - 1)"
      unfolding p2_add [symmetric] k_def by (simp add: algebra_simps)
    also have "\<dots> \<le> of_int p" by (rule bitlen_p2_bounds(1) [OF p])
    finally show ?thesis using qpos by (simp add: a pos_less_divide_eq)
  qed
  have hi: "a < (2::rat) powi (k + 1)"
  proof -
    have "(of_int p :: rat) < 2 powi (bitlen p)" by (rule bitlen_p2_bounds(2) [OF p])
    also have "\<dots> = 2 powi (k + 1) * 2 powi (bitlen q - 1)"
      unfolding p2_add [symmetric] k_def by (simp add: algebra_simps)
    also have "\<dots> \<le> 2 powi (k + 1) * of_int q"
      using bitlen_p2_bounds(1) [OF q] by (intro mult_left_mono) simp_all
    finally show ?thesis using qpos by (simp add: a pos_divide_less_eq)
  qed
  show "2 powi (ilog2 a) \<le> a"
    using lo by (simp add: il)
  show "a < 2 powi (ilog2 a + 1)"
    using hi by (auto simp: il not_le)
qed

lemma ilog2_unique:
  assumes "2 powi e \<le> a" "a < 2 powi (e + 1)"
  shows "ilog2 a = e"
proof -
  have "0 < a" using assms(1) p2_pos [of e] by linarith
  note b = ilog2_bounds [OF this]
  have "(2::rat) powi e < 2 powi (ilog2 a + 1)" using assms(1) b(2) by linarith
  then have "e < ilog2 a + 1" by (simp only: p2_less_iff)
  moreover have "(2::rat) powi (ilog2 a) < 2 powi (e + 1)" using assms(2) b(1) by linarith
  then have "ilog2 a < e + 1" by (simp only: p2_less_iff)
  ultimately show ?thesis by simp
qed

lemma ilog2_le:
  assumes "0 < a" "a < 2 powi (e + 1)"
  shows "ilog2 a \<le> e"
proof -
  have "(2::rat) powi (ilog2 a) < 2 powi (e + 1)"
    using ilog2_bounds(1) [OF assms(1)] assms(2) by linarith
  then have "ilog2 a < e + 1" by (simp only: p2_less_iff)
  then show ?thesis by simp
qed

lemma ilog2_ge:
  assumes "2 powi e \<le> a"
  shows "e \<le> ilog2 a"
proof -
  have "0 < a" using assms p2_pos [of e] by linarith
  then have "(2::rat) powi e < 2 powi (ilog2 a + 1)"
    using ilog2_bounds(2) [of a] assms by linarith
  then have "e < ilog2 a + 1" by (simp only: p2_less_iff)
  then show ?thesis by simp
qed

lemma roundHalfEven_of_int [simp]: "roundHalfEven (of_int n) = n"
  by (simp add: roundHalfEven_def)

lemma roundHalfEven_floor: "\<lfloor>q\<rfloor> \<le> roundHalfEven q"
  by (simp add: roundHalfEven_def Let_def)

lemma roundHalfEven_cases:
  "roundHalfEven q = \<lfloor>q\<rfloor> \<and> q - of_int \<lfloor>q\<rfloor> \<le> 1 / 2
   \<or> roundHalfEven q = \<lfloor>q\<rfloor> + 1 \<and> 1 / 2 \<le> q - of_int \<lfloor>q\<rfloor>"
  unfolding roundHalfEven_def Let_def by (simp add: not_less)

lemma roundHalfEven_ceiling: "roundHalfEven q \<le> \<lceil>q\<rceil>"
proof -
  from roundHalfEven_cases [of q] show ?thesis
  proof
    assume "roundHalfEven q = \<lfloor>q\<rfloor> \<and> q - of_int \<lfloor>q\<rfloor> \<le> 1 / 2"
    then show ?thesis using floor_le_ceiling [of q] by simp
  next
    assume a: "roundHalfEven q = \<lfloor>q\<rfloor> + 1 \<and> 1 / 2 \<le> q - of_int \<lfloor>q\<rfloor>"
    then have "q \<noteq> of_int \<lfloor>q\<rfloor>" by auto
    then have "\<lceil>q\<rceil> = \<lfloor>q\<rfloor> + 1" by (simp add: ceiling_altdef)
    with a show ?thesis by simp
  qed
qed

lemma roundHalfEven_nearest:
  assumes "\<bar>q - of_int m\<bar> < 1 / 2"
  shows "roundHalfEven q = m"
proof -
  from assms have lo: "of_int m - 1 / 2 < q" and hi: "q < of_int m + 1 / 2"
    by linarith+
  have "\<lfloor>q\<rfloor> = m \<or> \<lfloor>q\<rfloor> = m - 1" using lo hi by linarith
  then show ?thesis
  proof
    assume f: "\<lfloor>q\<rfloor> = m"
    have "q - of_int \<lfloor>q\<rfloor> < 1 / 2" unfolding f using hi by linarith
    then show ?thesis unfolding roundHalfEven_def Let_def using f by simp
  next
    assume f: "\<lfloor>q\<rfloor> = m - 1"
    have "1 / 2 < q - of_int \<lfloor>q\<rfloor>" unfolding f using lo by simp
    then show ?thesis unfolding roundHalfEven_def Let_def using f by simp
  qed
qed

lemma roundHalfEven_tie_down:
  assumes "q = of_int m + 1 / 2" "even m"
  shows "roundHalfEven q = m"
proof -
  have f: "\<lfloor>q\<rfloor> = m" unfolding assms(1) by linarith
  have r: "q - of_int \<lfloor>q\<rfloor> = 1 / 2" unfolding f by (simp add: assms(1))
  show ?thesis unfolding roundHalfEven_def Let_def r unfolding f using assms(2) by simp
qed

lemma roundHalfEven_tie_up:
  assumes "q = of_int m - 1 / 2" "even m"
  shows "roundHalfEven q = m"
proof -
  have f: "\<lfloor>q\<rfloor> = m - 1" unfolding assms(1) by linarith
  have r: "q - of_int \<lfloor>q\<rfloor> = 1 / 2" unfolding f by (simp add: assms(1))
  show ?thesis unfolding roundHalfEven_def Let_def r unfolding f using assms(2) by simp
qed

lemma toDouble_neg: "toDouble (- x) = jneg (toDouble x)"
proof (cases "x = 0")
  case True
  then show ?thesis by (simp add: toDouble_def)
next
  case False
  then show ?thesis
    by (cases "x < 0") (auto simp: toDouble_def Let_def)
qed

lemma ulpOf_pos: "0 < ulpOf x"
  by (simp add: ulpOf_def)

lemma toDouble_pos:
  assumes "0 < x"
  shows "toDouble x =
    (if 2 powi 1024 \<le> of_int (roundHalfEven (x / ulpOf x)) * ulpOf x then PInf
     else Fin (of_int (roundHalfEven (x / ulpOf x)) * ulpOf x))"
  using assms by (simp add: toDouble_def Let_def ulpOf_def expOf_def)

lemma toDouble_exact:
  assumes "0 < x" "x < 2 powi 1024" "x / ulpOf x = of_int k"
  shows "toDouble x = Fin x"
proof -
  have r: "roundHalfEven (x / ulpOf x) = k"
    unfolding assms(3) by simp
  have "x = of_int k * ulpOf x"
    using assms(3) ulpOf_pos [of x] by (simp add: field_simps)
  then have "of_int (roundHalfEven (x / ulpOf x)) * ulpOf x = x"
    unfolding r by simp
  then show ?thesis using assms(1,2) by (simp add: toDouble_pos)
qed

lemma p2_ulp: "2 powi (expOf x + 1) = 2 powi 53 * ulpOf x"
proof -
  have "(2::rat) powi (expOf x + 1) = 2 powi (53 + (expOf x - 52))"
    by (rule arg_cong [where f = "\<lambda>k. 2 powi k"]) simp
  also have "\<dots> = 2 powi 53 * 2 powi (expOf x - 52)" by (rule p2_add)
  finally show ?thesis by (simp only: ulpOf_def)
qed

lemma scaled_less:
  assumes "0 < x"
  shows "x / ulpOf x < 2 ^ 53"
proof -
  have "ilog2 x + 1 \<le> expOf x + 1" by (simp add: expOf_def)
  then have "(2::rat) powi (ilog2 x + 1) \<le> 2 powi (expOf x + 1)"
    by (simp only: p2_le_iff)
  with ilog2_bounds(2) [OF assms] have "x < 2 powi (expOf x + 1)" by linarith
  also have "\<dots> = 2 powi 53 * ulpOf x"
    by (rule p2_ulp)
  finally show ?thesis using ulpOf_pos [of x] by (simp add: pos_divide_less_eq)
qed

lemma mantissa_le:
  assumes "0 < x"
  shows "roundHalfEven (x / ulpOf x) \<le> 2 ^ 53"
proof -
  have "x / ulpOf x \<le> of_int (2 ^ 53)" using scaled_less [OF assms] by simp
  then have "\<lceil>x / ulpOf x\<rceil> \<le> 2 ^ 53" by (simp only: ceiling_le_iff)
  with roundHalfEven_ceiling [of "x / ulpOf x"] show ?thesis by linarith
qed

lemma mantissa_nonneg:
  assumes "0 < x"
  shows "0 \<le> roundHalfEven (x / ulpOf x)"
proof -
  have "0 \<le> x / ulpOf x" using assms ulpOf_pos [of x] by simp
  then have "0 \<le> \<lfloor>x / ulpOf x\<rfloor>" by simp
  with roundHalfEven_floor [of "x / ulpOf x"] show ?thesis by linarith
qed

lemma toDouble_nonneg:
  assumes "0 < x"
  shows "toDouble x = PInf \<or> (\<exists>y\<ge>0. toDouble x = Fin y)"
proof -
  have "0 \<le> of_int (roundHalfEven (x / ulpOf x)) * ulpOf x"
    using mantissa_nonneg [OF assms] ulpOf_pos [of x] by simp
  then show ?thesis using assms by (auto simp: toDouble_pos)
qed

lemma toDouble_idem_pos:
  assumes "0 < x" "toDouble x = Fin y"
  shows "toDouble y = Fin y"
proof -
  define m where "m = roundHalfEven (x / ulpOf x)"
  have y: "y = of_int m * ulpOf x" and ylt: "y < 2 powi 1024"
    using assms by (auto simp: toDouble_pos m_def split: if_splits)
  have m0: "0 \<le> m" unfolding m_def by (rule mantissa_nonneg [OF assms(1)])
  have m53: "m \<le> 2 ^ 53" unfolding m_def by (rule mantissa_le [OF assms(1)])
  have e_lo: "- 1022 \<le> expOf x" by (simp add: expOf_def)
  show ?thesis
  proof (cases "m = 0")
    case True
    then show ?thesis by (simp add: y toDouble_def)
  next
    case False
    with m0 have mpos: "0 < m" by simp
    then have ypos: "0 < y" using ulpOf_pos [of x] by (simp add: y)
    show ?thesis
    proof (cases "m = 2 ^ 53")
      case True
      have yv: "y = 2 powi (expOf x + 1)"
        unfolding y True p2_ulp by simp
      have "(2::rat) powi (expOf x + 1) < 2 powi (expOf x + 1 + 1)"
        by (simp only: p2_less_iff)
      with yv have "ilog2 y = expOf x + 1"
        by (intro ilog2_unique) simp_all
      then have "expOf y = expOf x + 1" using e_lo by (simp add: expOf_def)
      then have "ulpOf y = 2 * ulpOf x"
        unfolding ulpOf_def using p2_Suc [of "expOf x - 52"] by (simp add: algebra_simps)
      then have "y / ulpOf y = of_int (2 ^ 52)"
        using ulpOf_pos [of x] by (simp add: y True)
      with ypos ylt show ?thesis by (rule toDouble_exact)
    next
      case False
      with m53 have "m < 2 ^ 53" by simp
      then have "(of_int m :: rat) < 2 ^ 53" by (metis of_int_less_numeral_power_cancel_iff)
      then have "y < 2 powi 53 * ulpOf x" using ulpOf_pos [of x] by (simp add: y)
      also have "\<dots> = 2 powi (expOf x + 1)"
        by (rule p2_ulp [symmetric])
      finally have "ilog2 y \<le> expOf x" using ypos by (intro ilog2_le)
      then have le: "expOf y \<le> expOf x" using e_lo by (simp add: expOf_def)
      define d where "d = nat (expOf x - expOf y)"
      have "(2::rat) powi (expOf x - 52) = 2 powi ((expOf y - 52) + int d)"
        by (rule arg_cong [where f = "\<lambda>k. 2 powi k"]) (use le in \<open>simp add: d_def\<close>)
      also have "\<dots> = 2 powi (expOf y - 52) * 2 powi (int d)" by (rule p2_add)
      finally have ux: "ulpOf x = ulpOf y * 2 ^ d"
        by (simp only: ulpOf_def power_int_of_nat)
      have "y = of_int (m * 2 ^ d) * ulpOf y"
        by (subst y, subst ux) simp
      then have "y / ulpOf y = of_int (m * 2 ^ d)"
        using ulpOf_pos [of y] by (simp add: nonzero_divide_eq_eq)
      with ypos ylt show ?thesis by (rule toDouble_exact)
    qed
  qed
qed

lemma toDouble_idem:
  assumes "toDouble x = Fin y"
  shows "toDouble y = Fin y"
proof -
  consider "x = 0" | "0 < x" | "x < 0" by linarith
  then show ?thesis
  proof cases
    case 1
    with assms show ?thesis by (simp add: toDouble_def)
  next
    case 2
    then show ?thesis using assms by (rule toDouble_idem_pos)
  next
    case 3
    then have p: "0 < - x" by simp
    have "toDouble (- x) = Fin (- y)" using assms by (simp add: toDouble_neg)
    with p have "toDouble (- y) = Fin (- y)" by (rule toDouble_idem_pos)
    then have "jneg (toDouble y) = Fin (- y)" by (simp add: toDouble_neg)
    then show ?thesis by (cases "toDouble y") simp_all
  qed
qed

lemma toDouble_eqI:
  assumes "2 powi e \<le> x" "x < 2 powi (e + 1)" "- 1022 \<le> e"
    and "roundHalfEven (x / 2 powi (e - 52)) = m"
    and "of_int m * 2 powi (e - 52) = y"
    and "y < 2 powi 1024"
  shows "toDouble x = Fin y"
proof -
  have pos: "0 < x" using assms(1) p2_pos [of e] by linarith
  have "ilog2 x = e" using assms(1,2) by (rule ilog2_unique)
  then have "expOf x = e" using assms(3) by (simp add: expOf_def)
  then have u: "ulpOf x = 2 powi (e - 52)" by (simp add: ulpOf_def)
  show ?thesis
    unfolding toDouble_pos [OF pos] u assms(4) assms(5) using assms(6) by simp
qed

lemma expOf_nonneg:
  assumes "1 \<le> x"
  shows "expOf x = ilog2 x" "0 \<le> ilog2 x"
proof -
  have "(2::rat) powi 0 \<le> x" using assms by simp
  then show "0 \<le> ilog2 x" by (rule ilog2_ge)
  then show "expOf x = ilog2 x" by (simp add: expOf_def)
qed

lemma scaled_int_small:
  assumes "0 < n" "ilog2 (of_int n) \<le> 52"
  shows "\<exists>k. of_int n / ulpOf (of_int n) = of_int k"
proof -
  let ?x = "of_int n :: rat"
  have x1: "1 \<le> ?x" using assms(1) by simp
  note e = expOf_nonneg [OF x1]
  define d where "d = nat (52 - ilog2 ?x)"
  have "(2::rat) powi (expOf ?x - 52) = 2 powi (- int d)"
    by (rule arg_cong [where f = "\<lambda>k. 2 powi k"]) (use assms(2) e in \<open>simp add: d_def\<close>)
  then have "ulpOf ?x = 1 / 2 ^ d"
    by (simp add: ulpOf_def power_int_minus_divide)
  then have "?x / ulpOf ?x = of_int (n * 2 ^ d)" by simp
  then show ?thesis ..
qed

lemma toDouble_of_int_small:
  assumes "0 < n" "n < 2 ^ 53"
  shows "toDouble (of_int n) = Fin (of_int n)"
proof -
  let ?x = "of_int n :: rat"
  have xpos: "0 < ?x" using assms(1) by simp
  have "?x < 2 ^ 53" using assms(2) by (metis of_int_less_numeral_power_cancel_iff)
  then have lt: "?x < 2 powi (52 + 1)" by simp
  have "ilog2 ?x \<le> 52" using xpos lt by (rule ilog2_le)
  with assms(1) obtain k where k: "?x / ulpOf ?x = of_int k"
    using scaled_int_small by blast
  have "?x < 2 powi 1024" using \<open>?x < 2 ^ 53\<close> by simp
  with xpos show ?thesis using k by (rule toDouble_exact)
qed

lemma toDouble_pow53: "toDouble (2 ^ 53) = Fin (2 ^ 53)"
proof (rule toDouble_eqI [where e = 53 and m = "2 ^ 52"])
  show "roundHalfEven (2 ^ 53 / 2 powi (53 - 52)) = 2 ^ 52"
  proof -
    have "(2::rat) ^ 53 / 2 powi (53 - 52) = of_int (2 ^ 52)" by simp
    then show ?thesis by (simp only: roundHalfEven_of_int)
  qed
qed simp_all

lemma toDouble_of_int_exact:
  assumes "\<bar>n\<bar> \<le> 2 ^ 53"
  shows "toDouble (of_int n) = Fin (of_int n)"
proof -
  have pos: "toDouble (of_int k) = Fin (of_int k)" if "0 < k" "k \<le> 2 ^ 53" for k :: int
  proof (cases "k = 2 ^ 53")
    case True
    then show ?thesis using toDouble_pow53 by simp
  next
    case False
    with that have "k < 2 ^ 53" by simp
    with that(1) show ?thesis by (rule toDouble_of_int_small)
  qed
  consider "n = 0" | "0 < n" | "n < 0" by linarith
  then show ?thesis
  proof cases
    case 1
    then show ?thesis by (simp add: toDouble_def)
  next
    case 2
    with assms show ?thesis by (intro pos) simp_all
  next
    case 3
    with assms have "toDouble (of_int (- n)) = Fin (of_int (- n))" by (intro pos) simp_all
    then have "jneg (toDouble (of_int n)) = Fin (- of_int n)" by (simp add: toDouble_neg)
    then show ?thesis by (cases "toDouble (of_int n)") simp_all
  qed
qed

lemma toDouble_ge_1:
  assumes "1 \<le> x"
  shows "toDouble x = PInf \<or> (\<exists>y\<ge>1. toDouble x = Fin y)"
proof -
  have pos: "0 < x" using assms by simp
  note e = expOf_nonneg [OF assms]
  define m where "m = roundHalfEven (x / ulpOf x)"
  have "2 powi (ilog2 x) \<le> x" by (rule ilog2_bounds(1) [OF pos])
  then have "2 powi (expOf x) \<le> x" by (simp add: e)
  moreover have p: "(2::rat) powi (expOf x) = 2 powi 52 * ulpOf x"
  proof -
    have "(2::rat) powi (expOf x) = 2 powi (52 + (expOf x - 52))"
      by (rule arg_cong [where f = "\<lambda>k. 2 powi k"]) simp
    also have "\<dots> = 2 powi 52 * 2 powi (expOf x - 52)" by (rule p2_add)
    finally show ?thesis by (simp only: ulpOf_def)
  qed
  ultimately have "of_int (2 ^ 52) \<le> x / ulpOf x"
    using ulpOf_pos [of x] by (simp add: pos_le_divide_eq)
  then have "2 ^ 52 \<le> \<lfloor>x / ulpOf x\<rfloor>" by (simp only: le_floor_iff)
  with roundHalfEven_floor [of "x / ulpOf x"] have "2 ^ 52 \<le> m" unfolding m_def by linarith
  then have "(2::rat) ^ 52 \<le> of_int m" by (metis of_int_le_iff of_int_numeral of_int_power)
  then have "2 powi 52 * ulpOf x \<le> of_int m * ulpOf x"
    using ulpOf_pos [of x] by (intro mult_right_mono) simp_all
  moreover have "(1::rat) \<le> 2 powi (expOf x)"
    using e by (simp add: one_le_power_int)
  ultimately have "1 \<le> of_int m * ulpOf x" unfolding p [symmetric] by linarith
  then show ?thesis unfolding toDouble_pos [OF pos] m_def by auto
qed

lemma toDouble_of_int_integral:
  "toDouble (of_int n) = PInf \<or> toDouble (of_int n) = NInf
   \<or> (\<exists>k. toDouble (of_int n) = Fin (of_int k))"
proof -
  have pos: "toDouble (of_int k) = PInf \<or> (\<exists>j. toDouble (of_int k) = Fin (of_int j))"
    if "0 < k" for k :: int
  proof (cases "ilog2 (of_int k) \<le> 52")
    case True
    let ?x = "of_int k :: rat"
    from that True obtain j where j: "?x / ulpOf ?x = of_int j"
      using scaled_int_small by blast
    have r: "roundHalfEven (?x / ulpOf ?x) = j" unfolding j by simp
    have "?x = of_int j * ulpOf ?x"
      using j ulpOf_pos [of ?x] by (simp add: field_simps)
    then have "of_int (roundHalfEven (?x / ulpOf ?x)) * ulpOf ?x = of_int k"
      unfolding r by simp
    moreover have "0 < ?x" using that by simp
    ultimately show ?thesis by (auto simp: toDouble_pos)
  next
    case False
    let ?x = "of_int k :: rat"
    have x1: "1 \<le> ?x" using that by simp
    note e = expOf_nonneg [OF x1]
    define d where "d = nat (expOf ?x - 52)"
    have "(2::rat) powi (expOf ?x - 52) = 2 powi (int d)"
      by (rule arg_cong [where f = "\<lambda>k. 2 powi k"]) (use False e in \<open>simp add: d_def\<close>)
    then have u: "ulpOf ?x = of_int (2 ^ d)" by (simp add: ulpOf_def)
    define m where "m = roundHalfEven (?x / ulpOf ?x)"
    have y: "of_int m * ulpOf ?x = of_int (m * 2 ^ d)"
      by (subst u) simp
    have xpos: "0 < ?x" using that by simp
    show ?thesis
    proof (cases "2 powi 1024 \<le> of_int m * ulpOf ?x")
      case True
      then have "toDouble ?x = PInf"
        unfolding toDouble_pos [OF xpos] m_def by simp
      then show ?thesis by simp
    next
      case False
      then have "toDouble ?x = Fin (of_int m * ulpOf ?x)"
        unfolding toDouble_pos [OF xpos] m_def by simp
      then have "toDouble ?x = Fin (of_int (m * 2 ^ d))"
        by (simp only: y)
      then show ?thesis by blast
    qed
  qed
  consider "n = 0" | "0 < n" | "n < 0" by linarith
  then show ?thesis
  proof cases
    case 1
    have "toDouble (of_int n) = Fin (of_int 0)" using 1 by (simp add: toDouble_def)
    then show ?thesis by blast
  next
    case 2
    then show ?thesis using pos by blast
  next
    case 3
    then have "0 < - n" by simp
    from pos [OF this] show ?thesis
    proof
      assume "toDouble (of_int (- n)) = PInf"
      then have "jneg (toDouble (of_int n)) = PInf" by (simp add: toDouble_neg)
      then have "toDouble (of_int n) = NInf" by (cases "toDouble (of_int n)") simp_all
      then show ?thesis by simp
    next
      assume "\<exists>j. toDouble (of_int (- n)) = Fin (of_int j)"
      then obtain j where "toDouble (of_int (- n)) = Fin (of_int j)" ..
      then have "jneg (toDouble (of_int n)) = Fin (of_int j)" by (simp add: toDouble_neg)
      then have "toDouble (of_int n) = Fin (of_int (- j))"
        by (cases "toDouble (of_int n)") auto
      then show ?thesis by blast
    qed
  qed
qed

section \<open>Properties of digit strings\<close>

lemma digitChar_code: "d < 10 \<Longrightarrow> (of_char (digitChar d) :: nat) = 48 + d"
  by (simp add: digitChar_def)

lemma isDigit_digitChar: "d < 10 \<Longrightarrow> isDigit (digitChar d)"
  by (simp add: isDigit_def digitChar_code)

lemma natToString_digits: "list_all isDigit (natToString n)"
proof (induction n rule: natToString.induct)
  case (1 n)
  show ?case
  proof (cases "n < 10")
    case True
    then show ?thesis by (subst natToString.simps) (simp add: isDigit_digitChar)
  next
    case False
    with 1 show ?thesis by (subst natToString.simps) (simp add: isDigit_digitChar)
  qed
qed

lemma natToString_ne: "natToString n \<noteq> []"
  by (subst natToString.simps) simp

lemma foldl_digits_acc:
  "foldl (\<lambda>acc c. acc * 10 + ((of_char c :: nat) - 48)) acc ds
     = acc * 10 ^ length ds + foldl (\<lambda>acc c. acc * 10 + ((of_char c :: nat) - 48)) 0 ds"
proof (induction ds arbitrary: acc)
  case Nil
  show ?case by simp
next
  case (Cons c cs)
  show ?case
    by (simp add: Cons.IH [of "acc * 10 + (of_char c - 48)"] Cons.IH [of "of_char c - 48"]
        algebra_simps)
qed

lemma digitsNat_append: "digitsNat (a @ b) = digitsNat a * 10 ^ length b + digitsNat b"
  unfolding digitsNat_def foldl_append by (rule foldl_digits_acc)

lemma digitsNat_single: "d < 10 \<Longrightarrow> digitsNat [digitChar d] = d"
  by (simp add: digitsNat_def digitChar_code)

lemma digitsNat_natToString: "digitsNat (natToString n) = n"
proof (induction n rule: natToString.induct)
  case (1 n)
  show ?case
  proof (cases "n < 10")
    case True
    then show ?thesis by (subst natToString.simps) (simp add: digitsNat_single)
  next
    case False
    with 1 show ?thesis
      by (subst natToString.simps) (simp add: digitsNat_append digitsNat_single)
  qed
qed

lemma digitsNat_zeros: "digitsNat (replicate k (CHR ''0'') @ ds) = digitsNat ds"
proof -
  have "digitsNat (replicate k (CHR ''0'')) = 0"
  proof (induction k)
    case 0
    show ?case by (simp add: digitsNat_def)
  next
    case (Suc k)
    have "digitsNat (replicate (Suc k) (CHR ''0'')) = digitsNat ([CHR ''0''] @ replicate k (CHR ''0''))"
      by simp
    also have "\<dots> = digitsNat [CHR ''0''] * 10 ^ k + digitsNat (replicate k (CHR ''0''))"
      by (simp only: digitsNat_append length_replicate)
    also have "\<dots> = 0" using Suc by (simp add: digitsNat_def)
    finally show ?case .
  qed
  then show ?thesis by (simp add: digitsNat_append)
qed

lemma length_natToString:
  "n < 10 ^ d \<Longrightarrow> 0 < d \<Longrightarrow> length (natToString n) \<le> d"
proof (induction n arbitrary: d rule: natToString.induct)
  case (1 n)
  show ?case
  proof (cases "n < 10")
    case True
    with 1(3) show ?thesis by (subst natToString.simps) simp
  next
    case False
    obtain d' where d: "d = Suc d'" using 1(3) by (cases d) auto
    have "d' \<noteq> 0" using False 1(2) d by (cases d') auto
    moreover have "n div 10 < 10 ^ d'" using 1(2) d by (simp add: less_mult_imp_div_less)
    ultimately have "length (natToString (n div 10)) \<le> d'"
      using 1(1) [OF False, of d'] by simp
    with False d show ?thesis by (subst natToString.simps) simp
  qed
qed

lemma digitVal_digit: "isDigit c \<Longrightarrow> digitVal c = Some ((of_char c :: nat) - 48)"
  by (simp add: isDigit_def digitVal_def Let_def)

lemma isDigit_not_space: "isDigit c \<Longrightarrow> \<not> isWhiteSpace c"
  by (auto simp: isDigit_def isWhiteSpace_def)

lemma parseDigitsAcc_decimal:
  "list_all isDigit ds \<Longrightarrow>
   parseDigitsAcc 10 acc ds = Some (foldl (\<lambda>acc c. acc * 10 + ((of_char c :: nat) - 48)) acc ds)"
proof (induction ds arbitrary: acc)
  case Nil
  show ?case by simp
next
  case (Cons c cs)
  then have c: "isDigit c" and cs: "list_all isDigit cs" by simp_all
  have "(of_char c :: nat) - 48 < 10" using c by (auto simp: isDigit_def)
  then show ?case using Cons.IH [OF cs] by (simp add: digitVal_digit [OF c])
qed

lemma parseDigits_natToString: "parseDigits 10 (natToString n) = Some n"
  using digitsNat_natToString [of n]
  by (simp add: parseDigits_def natToString_ne parseDigitsAcc_decimal natToString_digits digitsNat_def)

lemma dropWhile_none: "\<forall>c\<in>set s. \<not> P c \<Longrightarrow> dropWhile P s = s"
  by (cases s) auto

lemma trim_digits:
  assumes "list_all (\<lambda>c. \<not> isWhiteSpace c) s"
  shows "trim s = s"
proof -
  from assms have a: "\<forall>c\<in>set s. \<not> isWhiteSpace c" by (simp add: list_all_iff)
  then have "\<forall>c\<in>set (rev s). \<not> isWhiteSpace c" by simp
  then have "dropWhile isWhiteSpace (rev s) = rev s" by (rule dropWhile_none)
  with dropWhile_none [OF a] show ?thesis by (simp add: trim_def)
qed

lemma take2_digits:
  assumes "list_all isDigit s" "\<not> isDigit c"
  shows "take 2 s \<noteq> [a, c]"
proof
  assume "take 2 s = [a, c]"
  then have "c \<in> set (take 2 s)" by simp
  then have "c \<in> set s" by (rule in_set_takeD)
  with assms show False by (simp add: list_all_iff)
qed

lemma BigInt_of_digits:
  assumes "list_all isDigit s" "s \<noteq> []"
  shows "BigInt_of_string s = Inr (int (digitsNat s))"
proof -
  have ws: "list_all (\<lambda>c. \<not> isWhiteSpace c) s"
    using assms(1) isDigit_not_space by (auto simp: list_all_iff)
  have t: "trim s = s" using ws by (rule trim_digits)
  have nx: "take 2 s \<noteq> ''0x''" "take 2 s \<noteq> ''0X''" "take 2 s \<noteq> ''0o''" "take 2 s \<noteq> ''0O''"
    "take 2 s \<noteq> ''0b''" "take 2 s \<noteq> ''0B''"
    by (rule take2_digits [OF assms(1)], simp add: isDigit_def)+
  have "hd s \<in> set s" using assms(2) by simp
  then have "isDigit (hd s)" using assms(1) by (simp add: list_all_iff)
  then have hd: "hd s \<noteq> CHR ''-''" "hd s \<noteq> CHR ''+''" by (auto simp: isDigit_def)
  have "parseDigits 10 s = Some (digitsNat s)"
    using assms by (simp add: parseDigits_def parseDigitsAcc_decimal digitsNat_def)
  then show ?thesis
    unfolding BigInt_of_string_def t Let_def using assms(2) nx hd by simp
qed

lemma BigInt_of_neg_digits:
  assumes "list_all isDigit s" "s \<noteq> []"
  shows "BigInt_of_string (CHR ''-'' # s) = Inr (- int (digitsNat s))"
proof -
  have ws: "list_all (\<lambda>c. \<not> isWhiteSpace c) (CHR ''-'' # s)"
    using assms(1) isDigit_not_space by (auto simp: list_all_iff isWhiteSpace_def)
  have t: "trim (CHR ''-'' # s) = CHR ''-'' # s" using ws by (rule trim_digits)
  have "parseDigits 10 s = Some (digitsNat s)"
    using assms by (simp add: parseDigits_def parseDigitsAcc_decimal digitsNat_def)
  then show ?thesis
    unfolding BigInt_of_string_def t Let_def by simp
qed

lemma BigInt_roundtrip: "BigInt_of_string (BigInt_toString r) = Inr r"
proof (cases "r < 0")
  case True
  then show ?thesis
    by (simp add: BigInt_toString_def BigInt_of_neg_digits natToString_digits natToString_ne
        digitsNat_natToString)
next
  case False
  then show ?thesis
    by (simp add: BigInt_toString_def BigInt_of_digits natToString_digits natToString_ne
        digitsNat_natToString)
qed

lemma takeWhile_all: "list_all P a \<Longrightarrow> takeWhile P a = a"
  by (simp add: list_all_iff)

lemma dropWhile_all: "list_all P a \<Longrightarrow> dropWhile P a = []"
  by (simp add: list_all_iff)

lemma takeWhile_stop: "list_all P a \<Longrightarrow> \<not> P c \<Longrightarrow> takeWhile P (a @ c # r) = a"
  by (simp add: list_all_iff takeWhile_append2)

lemma dropWhile_stop: "list_all P a \<Longrightarrow> \<not> P c \<Longrightarrow> dropWhile P (a @ c # r) = c # r"
  by (simp add: list_all_iff dropWhile_append2)

lemma parseFloat_unsigned:
  assumes "s \<noteq> []" "isDigit (hd s)"
  shows "parseFloat s =
    (let r1 = dropWhile isDigit s;
         dot = (r1 \<noteq> [] \<and> hd r1 = CHR ''.'');
         fp = (if dot then takeWhile isDigit (tl r1) else []);
         r2 = (if dot then dropWhile isDigit (tl r1) else r1)
     in toDouble (of_nat (digitsNat (takeWhile isDigit s @ fp))
          * 10 powi (exponentPart r2 - int (length fp))))"
proof -
  obtain c s' where s: "s = c # s'" using assms(1) by (cases s) auto
  have c: "isDigit c" using assms(2) s by simp
  have t: "dropWhile isWhiteSpace s = s"
    unfolding s using isDigit_not_space [OF c] by simp
  have c1: "hd s \<noteq> CHR ''-''" "hd s \<noteq> CHR ''+''"
    using assms(2) by (auto simp: isDigit_def)
  have "c \<noteq> CHR ''I''" using c by (auto simp: isDigit_def)
  then have inf: "take 8 s \<noteq> ''Infinity''" unfolding s by simp
  have ip: "takeWhile isDigit s \<noteq> []" unfolding s using c by simp
  have u: "(if s \<noteq> [] \<and> (hd s = CHR ''-'' \<or> hd s = CHR ''+'') then tl s else s) = s"
    using c1 by simp
  have neg: "(s \<noteq> [] \<and> hd s = CHR ''-'') = False"
    using c1 by simp
  show ?thesis
    unfolding parseFloat_def t Let_def u neg
    by (simp only: inf ip if_False simp_thms)
qed

lemma parseFloat_decimal:
  assumes a: "list_all isDigit a" "a \<noteq> []" and b: "list_all isDigit b"
  shows "parseFloat (a @ ''.'' @ b)
       = toDouble (of_nat (digitsNat (a @ b)) * 10 powi (- int (length b)))"
proof -
  let ?s = "a @ ''.'' @ b"
  have "hd a \<in> set a" using a(2) by simp
  then have hd: "isDigit (hd ?s)" using a by (simp add: list_all_iff)
  have ne: "?s \<noteq> []" using a(2) by simp
  have nd: "\<not> isDigit (CHR ''.'')" by (simp add: isDigit_def)
  have ip: "takeWhile isDigit ?s = a" using a(1) nd by (simp add: takeWhile_stop)
  have r1: "dropWhile isDigit ?s = CHR ''.'' # b" using a(1) nd by (simp add: dropWhile_stop)
  have dot: "(CHR ''.'' # b \<noteq> [] \<and> hd (CHR ''.'' # b) = CHR ''.'') = True" by simp
  have fp: "takeWhile isDigit (tl (CHR ''.'' # b)) = b" using takeWhile_all [OF b] by simp
  have r2: "dropWhile isDigit (tl (CHR ''.'' # b)) = []" using dropWhile_all [OF b] by simp
  have ex: "exponentPart [] = 0" by (simp add: exponentPart_def)
  show ?thesis
    unfolding parseFloat_unsigned [OF ne hd] Let_def ip r1 dot if_True fp r2 ex by simp
qed

lemma formatUnitsText_nonneg:
  assumes "0 \<le> r"
  shows "formatUnitsText r d
       = natToString (nat r div 10 ^ d) @ ''.''
         @ replicate (d - length (natToString (nat r mod 10 ^ d))) (CHR ''0'')
         @ natToString (nat r mod 10 ^ d)"
proof -
  have q: "BigInt_quot r (10 ^ d) = int (nat r div 10 ^ d)"
    using assms by (simp add: BigInt_quot_def sgn_if zdiv_int nat_power_eq)
  have m: "BigInt_rem r (10 ^ d) = int (nat r mod 10 ^ d)"
    using assms by (simp add: BigInt_rem_def sgn_if zmod_int nat_power_eq)
  show ?thesis
    unfolding formatUnitsText_def Let_def q m by (simp add: BigInt_toString_def padStart_def)
qed

lemma formatUnits_value:
  assumes "0 \<le> r"
  shows "formatUnits r (Fin (of_nat d)) = Inr (toDouble (of_int r / 10 ^ d))"
proof -
  define n where "n = nat r"
  define ip where "ip = n div 10 ^ d"
  define fp where "fp = n mod 10 ^ d"
  define frac where "frac = replicate (d - length (natToString fp)) (CHR ''0'') @ natToString fp"
  have r: "of_int r = (of_nat n :: rat)" using assms by (simp add: n_def)
  have n: "n = ip * 10 ^ d + fp" unfolding ip_def fp_def by (rule div_mult_mod_eq [symmetric])
  have tx: "formatUnitsText r d = natToString ip @ ''.'' @ frac"
    using formatUnitsText_nonneg [OF assms, of d] by (simp add: n_def ip_def fp_def frac_def)
  have fd: "list_all isDigit frac"
    by (simp add: frac_def natToString_digits) (simp add: list_all_iff isDigit_def)
  have "digitsNat frac = fp"
    unfolding frac_def by (simp only: digitsNat_zeros digitsNat_natToString)
  then have dv: "digitsNat (natToString ip @ frac) = ip * 10 ^ length frac + fp"
    by (simp only: digitsNat_append [of "natToString ip" frac] digitsNat_natToString)
  have val: "(of_nat (ip * 10 ^ length frac + fp) :: rat) * 10 powi (- int (length frac))
           = of_nat n / 10 ^ d"
  proof (cases "d = 0")
    case True
    then have "fp = 0" by (simp add: fp_def)
    moreover have "ip = n" using True by (simp add: ip_def)
    ultimately show ?thesis using True by (simp add: power_int_minus field_simps)
  next
    case False
    have "fp < 10 ^ d" by (simp add: fp_def)
    then have "length (natToString fp) \<le> d" using False by (intro length_natToString) simp_all
    then have "length frac = d" by (simp add: frac_def)
    then show ?thesis by (simp add: n power_int_minus field_simps)
  qed
  have "parseFloat (formatUnitsText r d) = toDouble (of_nat n / 10 ^ d)"
    unfolding tx parseFloat_decimal [OF natToString_digits natToString_ne fd] dv val ..
  then show ?thesis
    by (simp add: formatUnits_def r)
qed

section \<open>Properties of the decoder\<close>

lemma digitVal_less_16: "digitVal c = Some d \<Longrightarrow> d < 16"
  by (auto simp: digitVal_def Let_def split: if_splits)

lemma trim_no_space:
  assumes "\<not> list_ex isWhiteSpace s"
  shows "trim s = s"
proof -
  from assms have a: "\<forall>c\<in>set s. \<not> isWhiteSpace c"
    by (simp add: list_ex_iff)
  then have "dropWhile isWhiteSpace s = s"
    by (cases s) auto
  moreover have "\<forall>c\<in>set (rev s). \<not> isWhiteSpace c"
    using a by simp
  then have "dropWhile isWhiteSpace (rev s) = rev s"
    by (cases "rev s") auto
  ultimately show ?thesis by (simp add: trim_def)
qed

lemma digit_not_space: "digitVal c \<noteq> None \<Longrightarrow> \<not> isWhiteSpace c"
  by (auto simp: digitVal_def isWhiteSpace_def Let_def split: if_splits)

lemma parseDigitsAcc_hex:
  "list_all (\<lambda>c. digitVal c \<noteq> None) w \<Longrightarrow>
   parseDigitsAcc 16 acc w =
     Some (acc * 16 ^ length w + (\<Sum>i < length w. the (digitVal (w ! i)) * 16 ^ (length w - 1 - i)))"
proof (induction w arbitrary: acc)
  case Nil
  then show ?case by simp
next
  case (Cons c cs)
  then obtain d where d: "digitVal c = Some d" by auto
  have lt: "d < 16" using d by (rule digitVal_less_16)
  have "(\<Sum>i < Suc (length cs). the (digitVal ((c # cs) ! i)) * 16 ^ (length cs - i))
      = d * 16 ^ length cs + (\<Sum>i < length cs. the (digitVal (cs ! i)) * 16 ^ (length cs - Suc i))"
    by (simp add: sum.lessThan_Suc_shift d del: sum.lessThan_Suc)
  with Cons d lt show ?case
    by (simp add: algebra_simps del: sum.lessThan_Suc)
qed

lemma hexValue_bound:
  "list_all (\<lambda>c. digitVal c \<noteq> None) w \<Longrightarrow> hexValue w < 16 ^ length w"
proof (induction w)
  case Nil
  then show ?case by (simp add: hexValue_def)
next
  case (Cons c cs)
  then obtain d where d: "digitVal c = Some d" by auto
  have lt: "d < 16" using d by (rule digitVal_less_16)
  have split: "hexValue (c # cs) = d * 16 ^ length cs + hexValue cs"
    by (simp add: hexValue_def sum.lessThan_Suc_shift d del: sum.lessThan_Suc)
  from Cons have "hexValue cs < 16 ^ length cs" by simp
  moreover from lt have "d * 16 ^ length cs \<le> 15 * 16 ^ length cs"
    by (intro mult_le_mono1) simp
  ultimately have "d * 16 ^ length cs + hexValue cs < 16 * 16 ^ length cs"
    by linarith
  then show ?case unfolding split by simp
qed

lemma BigInt_of_hex:
  assumes "w \<noteq> []" "list_all (\<lambda>c. digitVal c \<noteq> None) w"
  shows "BigInt_of_string (''0x'' @ w) = Inr (int (hexValue w))"
proof -
  have ns: "\<not> list_ex isWhiteSpace (''0x'' @ w)"
    using assms(2) digit_not_space
    by (auto simp: list_ex_iff list_all_iff isWhiteSpace_def)
  have "parseDigits 16 w = Some (hexValue w)"
    using assms by (simp add: parseDigits_def parseDigitsAcc_hex hexValue_def)
  moreover have "trim (''0x'' @ w) = ''0x'' @ w"
    using ns by (rule trim_no_space)
  ultimately show ?thesis
    unfolding BigInt_of_string_def Let_def by simp
qed

lemma sint_256:
  assumes "0 \<le> v" "v < 2 ^ 256"
  shows "sint (word_of_int v :: 256 word) = (if v \<le> 2 ^ 255 - 1 then v else v - 2 ^ 256)"
proof -
  have eq: "sint (word_of_int v :: 256 word) = (v + 2 ^ 255) mod 2 ^ 256 - 2 ^ 255"
    by (simp add: int_word_sint)
  show ?thesis
  proof (cases "v \<le> 2 ^ 255 - 1")
    case True
    then have "(v + 2 ^ 255) mod 2 ^ 256 = v + 2 ^ 255"
      using assms by (intro mod_pos_pos_trivial) auto
    with True show ?thesis unfolding eq by simp
  next
    case False
    have "(v + 2 ^ 255) mod 2 ^ 256 = (v + 2 ^ 255 - 2 ^ 256) mod 2 ^ 256"
      by (simp only: minus_mod_self2)
    also have "\<dots> = v + 2 ^ 255 - 2 ^ 256"
      using False assms by (intro mod_pos_pos_trivial) auto
    finally show ?thesis using False unfolding eq by simp
  qed
qed

lemma hexValue_parse:
  "w \<noteq> [] \<Longrightarrow> list_all (\<lambda>c. digitVal c \<noteq> None) w \<Longrightarrow> parseDigitsAcc 16 0 w = Some (hexValue w)"
  by (simp add: parseDigitsAcc_hex hexValue_def)

lemma decodeInt256_all_ones:
  "decodeInt256 ''ffffffffffffffffffffffffffffffffffffffffffffffffffffffffffffffff'' = Inr (- 1)"
  by (simp add: decodeInt256_def BigInt_of_string_def trim_def isWhiteSpace_def parseDigits_def
      digitVal_def Let_def)

lemma decodeInt256_one:
  "decodeInt256 ''0000000000000000000000000000000000000000000000000000000000000001'' = Inr 1"
  by (simp add: decodeInt256_def BigInt_of_string_def trim_def isWhiteSpace_def parseDigits_def
      digitVal_def Let_def)

lemma decodeInt256_min:
  "decodeInt256 ''8000000000000000000000000000000000000000000000000000000000000000''
     = Inr (- (2 ^ 255))"
  by (simp add: decodeInt256_def BigInt_of_string_def trim_def isWhiteSpace_def parseDigits_def
      digitVal_def Let_def)

lemma decodeInt256_word:
  assumes "isHexWord w"
  shows "hexValue w < 2 ^ 256"
    and "decodeInt256 w = Inr (if int (hexValue w) \<le> 2 ^ 255 - 1 then int (hexValue w)
                               else int (hexValue w) - 2 ^ 256)"
    and "decodeInt256 w = Inr (sint (word_of_int (int (hexValue w)) :: 256 word))"
proof -
  from assms have len: "length w = 64" and hex: "list_all (\<lambda>c. digitVal c \<noteq> None) w"
    by (simp_all add: isHexWord_def)
  from len have ne: "w \<noteq> []" by auto
  have "hexValue w < 16 ^ 64"
    using hexValue_bound [OF hex] len by simp
  then show bound: "hexValue w < 2 ^ 256" by simp
  then have ibound: "int (hexValue w) < 2 ^ 256"
    by (metis of_nat_less_numeral_power_cancel_iff)
  show dec: "decodeInt256 w = Inr (if int (hexValue w) \<le> 2 ^ 255 - 1 then int (hexValue w)
                                else int (hexValue w) - 2 ^ 256)"
    unfolding decodeInt256_def BigInt_of_hex [OF ne hex] by (simp add: Let_def)
  have "sint (word_of_int (int (hexValue w)) :: 256 word)
      = (if int (hexValue w) \<le> 2 ^ 255 - 1 then int (hexValue w) else int (hexValue w) - 2 ^ 256)"
    using ibound by (intro sint_256) simp_all
  with dec show "decodeInt256 w = Inr (sint (word_of_int (int (hexValue w)) :: 256 word))"
    by simp
qed

text \<open>
  Claim C1. For every 32-byte word (64 hexadecimal digits) with unsigned value \<open>v\<close>, the
  signed-word decode returns \<open>v\<close> when \<open>v \<le> 2^255 - 1\<close> and \<open>v - 2^256\<close> otherwise, over
  unbounded integers; this is the two's-complement reading \<open>sint\<close> of the 256-bit word.
  The all-ones word decodes to \<open>-1\<close>, the word of value 1 to \<open>1\<close>, and the word \<open>2^255\<close> to
  \<open>-2^255\<close>.
\<close>

theorem decodeInt256_twos_complement:
  "(isHexWord w \<longrightarrow>
      hexValue w < 2 ^ 256
    \<and> decodeInt256 w = Inr (if int (hexValue w) \<le> 2 ^ 255 - 1 then int (hexValue w)
                             else int (hexValue w) - 2 ^ 256)
    \<and> decodeInt256 w = Inr (sint (word_of_int (int (hexValue w)) :: 256 word)))
   \<and> decodeInt256 ''ffffffffffffffffffffffffffffffffffffffffffffffffffffffffffffffff'' = Inr (- 1)
   \<and> decodeInt256 ''0000000000000000000000000000000000000000000000000000000000000001'' = Inr 1
   \<and> decodeInt256 ''8000000000000000000000000000000000000000000000000000000000000000''
       = Inr (- (2 ^ 255))"
  using decodeInt256_word [of w] decodeInt256_all_ones decodeInt256_one decodeInt256_min
  by blast

theorem decodeInt256_twos_complement_witness:
  "isHexWord ''fffffffffffffffffffffffffffffffffffffffffffffffffffffffffffffffe''
   \<and> decodeInt256 ''fffffffffffffffffffffffffffffffffffffffffffffffffffffffffffffffe''
       = Inr (- 2)"
proof -
  let ?w = "''fffffffffffffffffffffffffffffffffffffffffffffffffffffffffffffffe''"
  have h: "isHexWord ?w"
    by (simp add: isHexWord_def digitVal_def)
  have v: "parseDigitsAcc 16 0 ?w = Some (hexValue ?w)"
    using h by (intro hexValue_parse) (simp_all add: isHexWord_def)
  have hv: "hexValue ?w = 2 ^ 256 - 2"
    using v by (simp add: digitVal_def)
  have wd: "(word_of_int (int (hexValue ?w)) :: 256 word) = - 2"
    unfolding hv by simp
  from decodeInt256_twos_complement [of ?w] h
  have "decodeInt256 ?w = Inr (sint (word_of_int (int (hexValue ?w)) :: 256 word))"
    by blast
  then have "decodeInt256 ?w = Inr (- 2)"
    unfolding wd by simp
  with h show ?thesis by blast
qed

section \<open>Properties of the unit converter\<close>

lemma toDouble_zero: "toDouble 0 = Fin 0"
  by (simp add: toDouble_def)

lemma jneg_jneg: "jneg (jneg x) = x"
  by (cases x) simp_all

lemma isDouble_toDouble: "isDouble (toDouble x)"
proof (cases "toDouble x")
  case (Fin y)
  then have "toDouble y = Fin y" by (rule toDouble_idem)
  with Fin show ?thesis by simp
qed simp_all

lemma isDouble_jdiv: "isDouble (jdiv a b)"
  by (cases a; cases b) (simp_all add: isDouble_toDouble toDouble_zero)

lemma jmul_one: "isDouble x \<Longrightarrow> jmul (Fin 1) x = x"
  by (cases x) simp_all

lemma jmul_minus_one: "isDouble x \<Longrightarrow> jmul (Fin (- 1)) x = jneg x"
proof (cases x)
  case (Fin y)
  assume "isDouble x"
  with Fin have "toDouble y = Fin y" by simp
  then have "toDouble (- y) = Fin (- y)" by (simp add: toDouble_neg)
  with Fin show ?thesis by simp
qed simp_all

lemma jdiv_jneg: "0 < b \<Longrightarrow> jdiv (jneg x) (Fin b) = jneg (jdiv x (Fin b))"
proof (cases x)
  case (Fin y)
  assume "0 < b"
  then have "jdiv (Fin (- y)) (Fin b) = toDouble (- (y / b))" by simp
  also have "\<dots> = jneg (toDouble (y / b))" by (rule toDouble_neg)
  finally show ?thesis using Fin \<open>0 < b\<close> by simp
qed simp_all

lemma Number_of_BigInt_zero: "Number_of_BigInt 0 = Fin 0"
  by (simp add: Number_of_BigInt_def toDouble_def)

lemma rateToApy_code:
  "rateToApy (BigInt_toString r) =
     Inr (jdiv (jmul (if r < 0 then Fin (- 1) else Fin 1)
                 (Number_of_BigInt (if \<bar>r\<bar> > 10 ^ 18 then \<bar>r\<bar> div 10 ^ 23 else \<bar>r\<bar>)))
               (Fin 100))"
  by (simp add: rateToApy_def BigInt_roundtrip Let_def abs_if)

lemma rateToApy_spec_eq:
  "jdiv (jmul (if r < 0 then Fin (- 1) else Fin 1)
               (Number_of_BigInt (if \<bar>r\<bar> > 10 ^ 18 then \<bar>r\<bar> div 10 ^ 23 else \<bar>r\<bar>)))
        (Fin 100) = rateToApy_spec r"
proof -
  define N where "N = Number_of_BigInt (if \<bar>r\<bar> > 10 ^ 18 then \<bar>r\<bar> div 10 ^ 23 else \<bar>r\<bar>)"
  have dN: "isDouble N" unfolding N_def Number_of_BigInt_def by (rule isDouble_toDouble)
  have dD: "isDouble (jdiv N (Fin 100))" by (rule isDouble_jdiv)
  consider "r = 0" | "0 < r" | "r < 0" by linarith
  then have "jdiv (jmul (if r < 0 then Fin (- 1) else Fin 1) N) (Fin 100)
      = jmul (Fin (of_int (sgn r))) (jdiv N (Fin 100))"
  proof cases
    case 1
    then have "N = Fin 0" by (simp add: N_def Number_of_BigInt_zero)
    with 1 show ?thesis by (simp add: toDouble_def)
  next
    case 2
    then show ?thesis by (simp add: jmul_one [OF dN] jmul_one [OF dD])
  next
    case 3
    then show ?thesis
      by (simp add: jmul_minus_one [OF dN] jmul_minus_one [OF dD] jdiv_jneg)
  qed
  then show ?thesis by (simp add: rateToApy_spec_def N_def)
qed

lemma rateToApy_spec_neg: "rateToApy_spec (- r) = jneg (rateToApy_spec r)"
proof -
  define D where "D = jdiv (Number_of_BigInt (if \<bar>r\<bar> > 10 ^ 18 then \<bar>r\<bar> div 10 ^ 23 else \<bar>r\<bar>)) (Fin 100)"
  have dD: "isDouble D" unfolding D_def by (rule isDouble_jdiv)
  have s: "rateToApy_spec r = jmul (Fin (of_int (sgn r))) D"
    "rateToApy_spec (- r) = jmul (Fin (of_int (sgn (- r)))) D"
    by (simp_all add: rateToApy_spec_def D_def)
  consider "r = 0" | "0 < r" | "r < 0" by linarith
  then show ?thesis
  proof cases
    case 1
    then have "D = Fin 0" by (simp add: D_def Number_of_BigInt_zero toDouble_def)
    with 1 show ?thesis unfolding s by (simp add: toDouble_def)
  next
    case 2
    then show ?thesis unfolding s by (simp add: jmul_one [OF dD] jmul_minus_one [OF dD])
  next
    case 3
    then show ?thesis unfolding s
      by (simp add: jmul_one [OF dD] jmul_minus_one [OF dD] jneg_jneg)
  qed
qed

lemma toDouble_1e18: "toDouble 1000000000000000000 = Fin 1000000000000000000"
proof (rule toDouble_eqI [where e = 59 and m = 7812500000000000])
  show "roundHalfEven (1000000000000000000 / 2 powi (59 - 52)) = 7812500000000000"
  proof -
    have "(1000000000000000000::rat) / 2 powi (59 - 52) = of_int 7812500000000000" by simp
    then show ?thesis by (simp only: roundHalfEven_of_int)
  qed
qed simp_all

lemma toDouble_1e16: "toDouble 10000000000000000 = Fin 10000000000000000"
proof (rule toDouble_eqI [where e = 53 and m = 5000000000000000])
  show "roundHalfEven (10000000000000000 / 2 powi (53 - 52)) = 5000000000000000"
  proof -
    have "(10000000000000000::rat) / 2 powi (53 - 52) = of_int 5000000000000000" by simp
    then show ?thesis by (simp only: roundHalfEven_of_int)
  qed
qed simp_all

lemma rateToApy_at_threshold:
  "rateToApy (BigInt_toString (10 ^ 18)) = Inr (Fin (10 ^ 16))"
  unfolding rateToApy_code
  by (simp add: Number_of_BigInt_def toDouble_1e18 toDouble_1e16)

lemma rateToApy_above_threshold:
  "rateToApy (BigInt_toString (10 ^ 18 + 1)) = Inr (Fin 0)"
  unfolding rateToApy_code
  by (simp add: Number_of_BigInt_def toDouble_def)

text \<open>
  Claim C3. For every signed integer rate \<open>r\<close>, \<open>rateToApy\<close> returns the sign of \<open>r\<close> times
  \<open>(|r| div 10^23) / 100\<close> when \<open>|r|\<close> exceeds \<open>10^18\<close> strictly, and the sign of \<open>r\<close> times
  \<open>|r| / 100\<close> otherwise, in double arithmetic; negating the rate negates the result. The
  threshold is strict: \<open>10^18\<close> itself is divided by 100 only, \<open>10^18 + 1\<close> is scaled down by
  \<open>10^23\<close> first.
\<close>

theorem rateToApy_scale_and_sign:
  "rateToApy (BigInt_toString r) = Inr (rateToApy_spec r)
   \<and> rateToApy (BigInt_toString (- r)) = Inr (jneg (rateToApy_spec r))
   \<and> rateToApy (BigInt_toString (10 ^ 18)) = Inr (Fin (10 ^ 16))
   \<and> rateToApy (BigInt_toString (10 ^ 18 + 1)) = Inr (Fin 0)"
proof -
  have a: "rateToApy (BigInt_toString k) = Inr (rateToApy_spec k)" for k
    unfolding rateToApy_code rateToApy_spec_eq ..
  have "rateToApy (BigInt_toString (- r)) = Inr (jneg (rateToApy_spec r))"
    unfolding a rateToApy_spec_neg ..
  with a [of r] rateToApy_at_threshold rateToApy_above_threshold show ?thesis by blast
qed

lemma roundHalfEven_error: "\<bar>of_int (roundHalfEven q) - q\<bar> \<le> 1 / 2"
proof -
  have f: "of_int \<lfloor>q\<rfloor> \<le> q" "q < of_int \<lfloor>q\<rfloor> + 1" by linarith+
  from roundHalfEven_cases [of q] show ?thesis
  proof
    assume "roundHalfEven q = \<lfloor>q\<rfloor> \<and> q - of_int \<lfloor>q\<rfloor> \<le> 1 / 2"
    then show ?thesis using f by simp
  next
    assume "roundHalfEven q = \<lfloor>q\<rfloor> + 1 \<and> 1 / 2 \<le> q - of_int \<lfloor>q\<rfloor>"
    then show ?thesis using f by simp
  qed
qed

lemma toDouble_rel_error:
  assumes "2 powi (- 1022) \<le> x" "x \<le> 2 powi 1023"
  shows "\<exists>y. toDouble x = Fin y \<and> \<bar>y - x\<bar> \<le> x / 2 ^ 53"
proof -
  have pos: "0 < x" using assms(1) p2_pos [of "- 1022"] by linarith
  define m where "m = roundHalfEven (x / ulpOf x)"
  define y where "y = of_int m * ulpOf x"
  have u: "0 < ulpOf x" by (rule ulpOf_pos)
  have "- 1022 \<le> ilog2 x" using assms(1) by (rule ilog2_ge)
  then have e: "expOf x = ilog2 x" by (simp add: expOf_def)
  have "2 powi (expOf x) \<le> x" unfolding e by (rule ilog2_bounds(1) [OF pos])
  moreover have "(2::rat) powi (expOf x) = 2 ^ 52 * ulpOf x"
  proof -
    have "(2::rat) powi (expOf x) = 2 powi (52 + (expOf x - 52))"
      by (rule arg_cong [where f = "\<lambda>k. 2 powi k"]) simp
    also have "\<dots> = 2 powi 52 * 2 powi (expOf x - 52)" by (rule p2_add)
    finally show ?thesis by (simp add: ulpOf_def)
  qed
  ultimately have ulp: "ulpOf x \<le> x / 2 ^ 52" by (simp add: field_simps)
  have "\<bar>of_int m - x / ulpOf x\<bar> \<le> 1 / 2" unfolding m_def by (rule roundHalfEven_error)
  then have "\<bar>of_int m - x / ulpOf x\<bar> * ulpOf x \<le> 1 / 2 * ulpOf x"
    using u by (intro mult_right_mono) simp_all
  moreover have "\<bar>of_int m - x / ulpOf x\<bar> * ulpOf x = \<bar>y - x\<bar>"
  proof -
    have "\<bar>of_int m - x / ulpOf x\<bar> * ulpOf x = \<bar>(of_int m - x / ulpOf x) * ulpOf x\<bar>"
      using u by (simp add: abs_mult)
    also have "(of_int m - x / ulpOf x) * ulpOf x = y - x"
      using u by (simp add: y_def field_simps)
    finally show ?thesis .
  qed
  ultimately have err: "\<bar>y - x\<bar> \<le> x / 2 ^ 53" using ulp by simp
  then have "y \<le> x + x / 2 ^ 53" by linarith
  also have "\<dots> \<le> 2 powi 1023 + 2 powi 1023 / 2 ^ 53"
    using assms(2) by (intro add_mono divide_right_mono) simp_all
  also have "\<dots> < 2 powi 1024" by simp
  finally have "\<not> 2 powi 1024 \<le> y" by simp
  then have "toDouble x = Fin y"
    unfolding toDouble_pos [OF pos] m_def [symmetric] y_def [symmetric] by simp
  with err show ?thesis by blast
qed

lemma Math_round_near:
  assumes "\<bar>y - of_int r\<bar> < 1 / 2"
  shows "Math_round (Fin y) = Fin (of_int r)"
proof -
  have "\<lfloor>y + 1 / 2\<rfloor> = r" using assms by linarith
  then show ?thesis by simp
qed

lemma roundtrip_small:
  assumes "0 \<le> r" "r < 2 ^ 51" "d \<le> 18"
  shows "\<exists>x. formatUnits r (Fin (of_nat d)) = Inr x \<and> reconstruct x d = Fin (of_int r)"
proof (cases "r = 0")
  case True
  have "formatUnits 0 (Fin (of_nat d)) = Inr (Fin 0)"
    using formatUnits_value [of 0 d] by (simp add: toDouble_zero)
  moreover have "Math_round (Fin 0) = Fin (of_int 0)"
    by (rule Math_round_near) simp
  then have "reconstruct (Fin 0) d = Fin 0"
    by (simp add: reconstruct_def toDouble_zero del: Math_round.simps)
  ultimately show ?thesis using True by simp
next
  case False
  with assms(1) have r1: "1 \<le> r" by simp
  define R where "R = (of_int r :: rat)"
  define T where "T = (10 ^ d :: rat)"
  have R1: "1 \<le> R" using r1 by (simp add: R_def)
  have "r \<le> 2 ^ 51 - 1" using assms(2) by simp
  then have "R \<le> of_int (2 ^ 51 - 1)" unfolding R_def by (simp only: of_int_le_iff)
  then have R51: "R \<le> 2 ^ 51 - 1" by simp
  have T1: "1 \<le> T" by (simp add: T_def)
  have "(10::rat) ^ d \<le> 10 ^ 18" using assms(3) by (intro power_increasing) simp_all
  then have T18: "T \<le> 10 ^ 18" by (simp add: T_def)
  have Tpos: "0 < T" using T1 by linarith
  define x where "x = R / T"
  have xlo: "1 / 10 ^ 18 \<le> x"
  proof -
    have "1 / 10 ^ 18 \<le> 1 / T" using T18 Tpos by (intro divide_left_mono) simp_all
    also have "\<dots> \<le> R / T" using R1 Tpos by (intro divide_right_mono) simp_all
    finally show ?thesis by (simp add: x_def)
  qed
  have xhi: "x \<le> R"
  proof -
    have "R / T \<le> R / 1" using T1 R1 by (intro divide_left_mono) simp_all
    then show ?thesis by (simp add: x_def)
  qed
  have tiny: "(2::rat) powi (- 1022) \<le> 1 / 1000000000000000000" by simp
  have huge: "(4503599627370496::rat) \<le> 2 powi 1023" by simp
  have R51n: "R \<le> 2251799813685247" using R51 by simp
  have xlon: "1 / 1000000000000000000 \<le> x" using xlo by simp
  have "2 powi (- 1022) \<le> x" using xlon tiny by linarith
  moreover have "x \<le> 2 powi 1023" using xhi R51n huge by linarith
  ultimately obtain y1 where y1: "toDouble x = Fin y1" and e1: "\<bar>y1 - x\<bar> \<le> x / 2 ^ 53"
    using toDouble_rel_error by blast
  define p where "p = y1 * T"
  have "\<bar>y1 - x\<bar> * T \<le> x / 2 ^ 53 * T"
    using e1 Tpos by (intro mult_right_mono) simp_all
  moreover have "\<bar>y1 - x\<bar> * T = \<bar>p - R\<bar>"
  proof -
    have "\<bar>y1 - x\<bar> * T = \<bar>(y1 - x) * T\<bar>" using Tpos by (simp add: abs_mult)
    also have "(y1 - x) * T = p - R" using Tpos by (simp add: p_def x_def field_simps)
    finally show ?thesis .
  qed
  moreover have "x / 2 ^ 53 * T = R / 2 ^ 53" using Tpos by (simp add: x_def)
  ultimately have "\<bar>p - R\<bar> \<le> R / 2 ^ 53" by simp
  then have ep: "\<bar>p - R\<bar> \<le> R / 9007199254740992" by simp
  have "2 powi (- 1022) \<le> p" using ep R1 tiny by linarith
  moreover have "p \<le> 2 powi 1023" using ep R51n huge by linarith
  ultimately obtain y2 where y2: "toDouble p = Fin y2" and "\<bar>y2 - p\<bar> \<le> p / 2 ^ 53"
    using toDouble_rel_error by blast
  then have e2: "\<bar>y2 - p\<bar> \<le> p / 9007199254740992" by simp
  have "\<bar>y2 - R\<bar> < 1 / 2" using e2 ep R51n R1 by linarith
  then have "Math_round (Fin y2) = Fin (of_int r)"
    unfolding R_def by (rule Math_round_near)
  then have "reconstruct (Fin y1) d = Fin (of_int r)"
    using y2 by (simp add: reconstruct_def p_def T_def)
  moreover have "formatUnits r (Fin (of_nat d)) = Inr (Fin y1)"
    using formatUnits_value [OF assms(1), of d] y1 by (simp add: x_def R_def T_def)
  ultimately show ?thesis by blast
qed

lemma toDouble_three_halves: "toDouble (3 / 2) = Fin (3 / 2)"
proof (rule toDouble_eqI [where e = 0 and m = 6755399441055744])
  show "roundHalfEven (3 / 2 / 2 powi (0 - 52)) = 6755399441055744"
  proof -
    have "(3::rat) / 2 / 2 powi (0 - 52) = of_int 6755399441055744" by simp
    then show ?thesis by (simp only: roundHalfEven_of_int)
  qed
qed simp_all

lemma toDouble_cex_parse:
  "toDouble (7594188214084453 / 10) = Fin (3037675285633781 / 4)"
proof (rule toDouble_eqI [where e = 49 and m = 6075350571267562])
  show "roundHalfEven (7594188214084453 / 10 / 2 powi (49 - 52)) = 6075350571267562"
    by (rule roundHalfEven_nearest) simp
qed simp_all

lemma toDouble_cex_product:
  "toDouble (15188376428168905 / 2) = Fin 7594188214084452"
proof (rule toDouble_eqI [where e = 52 and m = 7594188214084452])
  show "roundHalfEven (15188376428168905 / 2 / 2 powi (52 - 52)) = 7594188214084452"
    by (rule roundHalfEven_tie_down) simp_all
qed simp_all

lemma toDouble_2_53_plus_1: "toDouble 9007199254740993 = Fin 9007199254740992"
proof (rule toDouble_eqI [where e = 53 and m = 4503599627370496])
  show "roundHalfEven (9007199254740993 / 2 powi (53 - 52)) = 4503599627370496"
    by (rule roundHalfEven_tie_down) simp_all
qed simp_all

text \<open>
  Claim C4 as stated fails: the integer 7594188214084453 is below \<open>2^53\<close>, so it is a double,
  yet \<open>toDecimal(r, 1)\<close> is the double 759418821408445.25 and \<open>round\<close> of ten times that is
  7594188214084452.
\<close>

theorem formatUnits_roundtrip_counterexample:
  "Number_of_BigInt 7594188214084453 = Fin 7594188214084453
   \<and> formatUnits 7594188214084453 (Fin 1) = Inr (Fin (3037675285633781 / 4))
   \<and> reconstruct (Fin (3037675285633781 / 4)) 1 = Fin 7594188214084452
   \<and> reconstruct (Fin (3037675285633781 / 4)) 1 \<noteq> Fin 7594188214084453"
proof -
  have a: "Number_of_BigInt 7594188214084453 = Fin 7594188214084453"
    unfolding Number_of_BigInt_def using toDouble_of_int_exact [of 7594188214084453] by simp
  have b: "formatUnits 7594188214084453 (Fin 1) = Inr (Fin (3037675285633781 / 4))"
    using formatUnits_value [of 7594188214084453 1] by (simp add: toDouble_cex_parse)
  have "Math_round (Fin 7594188214084452) = Fin (of_int 7594188214084452)"
    by (rule Math_round_near) simp
  then have c: "reconstruct (Fin (3037675285633781 / 4)) 1 = Fin 7594188214084452"
    by (simp add: reconstruct_def toDouble_cex_product del: Math_round.simps)
  from a b c show ?thesis by simp
qed

text \<open>
  Claim C4, amended. For every non-negative integer \<open>r\<close> below \<open>2^51\<close> and every \<open>d\<close> in
  \<open>[0, 18]\<close>, \<open>toDecimal(r, d)\<close> is the double nearest to the exact quotient \<open>r / 10^d\<close> (whole
  part by integer division, fraction from the zero-padded remainder), and
  \<open>round(toDecimal(r, d) * 10^d)\<close> is exactly \<open>r\<close>.
\<close>

theorem formatUnits_roundtrip_below_2_51:
  assumes "0 \<le> r" "r < 2 ^ 51" "d \<le> 18"
  shows "formatUnits r (Fin (of_nat d)) = Inr (toDouble (of_int r / 10 ^ d))
       \<and> reconstruct (toDouble (of_int r / 10 ^ d)) d = Fin (of_int r)"
proof -
  have v: "formatUnits r (Fin (of_nat d)) = Inr (toDouble (of_int r / 10 ^ d))"
    using assms(1) by (rule formatUnits_value)
  from roundtrip_small [OF assms] obtain x
    where "formatUnits r (Fin (of_nat d)) = Inr x" "reconstruct x d = Fin (of_int r)" by blast
  with v show ?thesis by simp
qed

theorem formatUnits_roundtrip_below_2_51_witness:
  "(0::int) \<le> 1500000 \<and> (1500000::int) < 2 ^ 51 \<and> (6::nat) \<le> 18
   \<and> formatUnits 1500000 (Fin 6) = Inr (Fin (3 / 2))
   \<and> reconstruct (Fin (3 / 2)) 6 = Fin 1500000"
  using formatUnits_roundtrip_below_2_51 [of 1500000 6]
  by (simp add: toDouble_three_halves)

text \<open>
  Claim C9 as stated fails for a large input: with zero decimals the integer \<open>2^53 + 1\<close>
  comes back as \<open>2^53\<close>.
\<close>

theorem formatUnits_zero_decimals_counterexample:
  "formatUnits 9007199254740993 (Fin 0) = Inr (Fin 9007199254740992)
   \<and> formatUnits 9007199254740993 (Fin 0) \<noteq> Inr (Fin 9007199254740993)"
  using formatUnits_value [of 9007199254740993 0] by (simp add: toDouble_2_53_plus_1)

text \<open>
  Claim C9, amended. For every non-negative integer input and every number of decimals
  from 0 to 18 the conversion does not fail and returns the double nearest to
  \<open>r / 10^d\<close>; with zero decimals that is the double nearest to the input, which is the
  input integer itself whenever the input is at most \<open>2^53\<close>.
\<close>

theorem formatUnits_total:
  assumes "0 \<le> r" and "d \<le> 18"
  shows "formatUnits r (Fin (of_nat d)) = Inr (toDouble (of_int r / 10 ^ d))
       \<and> formatUnits r (Fin 0) = Inr (Number_of_BigInt r)
       \<and> (r \<le> 2 ^ 53 \<longrightarrow> formatUnits r (Fin 0) = Inr (Fin (of_int r)))"
proof -
  have a: "formatUnits r (Fin (of_nat d)) = Inr (toDouble (of_int r / 10 ^ d))"
    using assms(1) by (rule formatUnits_value)
  have b: "formatUnits r (Fin 0) = Inr (Number_of_BigInt r)"
    using formatUnits_value [OF assms(1), of 0] by (simp add: Number_of_BigInt_def)
  have "formatUnits r (Fin 0) = Inr (Fin (of_int r))" if "r \<le> 2 ^ 53"
    unfolding b Number_of_BigInt_def using assms(1) that by (simp add: toDouble_of_int_exact)
  with a b show ?thesis by blast
qed

theorem formatUnits_total_witness:
  "(0::int) \<le> 5 \<and> (0::nat) \<le> 18 \<and> formatUnits 5 (Fin 0) = Inr (Fin 5)
   \<and> (6::nat) \<le> 18 \<and> formatUnits 1500000 (Fin 6) = Inr (Fin (3 / 2))"
proof -
  have h: "(0::int) \<le> 5" and h': "(0::int) \<le> 1500000" by simp_all
  have k: "(0::nat) \<le> 18" and k': "(6::nat) \<le> 18" by simp_all
  from formatUnits_total [OF h k, THEN conjunct2, THEN conjunct2]
  have "formatUnits 5 (Fin 0) = Inr (Fin 5)"
    by simp
  moreover from formatUnits_total [OF h' k', THEN conjunct1]
  have "formatUnits 1500000 (Fin 6) = Inr (Fin (3 / 2))"
    by (simp add: toDouble_three_halves)
  ultimately show ?thesis by simp
qed

section \<open>Properties of the inferred decimals\<close>

lemma parseFloat_empty: "parseFloat [] = NaN"
  by (simp add: parseFloat_def)

lemma parseFloat_zero: "parseFloat ''0'' = Fin 0"
proof -
  have "parseFloat ''0'' = toDouble 0"
    by (subst parseFloat_unsigned) (simp_all add: isDigit_def digitsNat_def exponentPart_def)
  then show ?thesis by (simp add: toDouble_zero)
qed

lemma inferDecimals_default:
  assumes "defaultInput rawStr f"
  shows "inferDecimals lg rawStr f = Fin 18"
  using assms
  by (auto simp: defaultInput_def inferDecimals_def falsy_def split: option.splits)

lemma clamp_nat:
  "\<exists>k\<le>18. Math_max (Fin 0) (Math_min (Fin (of_int j)) (Fin 18)) = Fin (of_nat k)"
proof -
  define k where "k = nat (max 0 (min j 18))"
  have "k \<le> 18" by (simp add: k_def)
  moreover have "max (0::rat) (min (of_int j) 18) = of_nat k"
  proof -
    have "max (0::rat) (min (of_int j) 18) = of_int (max 0 (min j 18))"
      by (simp add: max_def min_def)
    also have "\<dots> = of_nat k" by (simp add: k_def)
    finally show ?thesis .
  qed
  ultimately show ?thesis by auto
qed

lemma clamp_round_log10:
  assumes "x = PInf \<or> (\<exists>q\<ge>0. x = Fin q)"
  shows "\<exists>k\<le>18. Math_max (Fin 0) (Math_min (Math_round (Math_log10 lg x)) (Fin 18)) = Fin (of_nat k)"
proof -
  have inf: "\<exists>k\<le>(18::nat). Fin 18 = Fin (of_nat k)"
    by (rule exI [of _ 18]) simp
  have zero: "\<exists>k\<le>(18::nat). Fin 0 = Fin (of_nat k)"
    by (rule exI [of _ 0]) simp
  from assms show ?thesis
  proof
    assume "x = PInf"
    then show ?thesis using inf by simp
  next
    assume "\<exists>q\<ge>0. x = Fin q"
    then obtain q where q: "0 \<le> q" "x = Fin q" by blast
    consider "q = 1" | "q = 0" | "q \<noteq> 1" "0 < q" using q(1) by linarith
    then show ?thesis
    proof cases
      case 1
      have "Math_round (Math_log10 lg x) = Fin (of_int \<lfloor>(1::rat) / 2\<rfloor>)"
        using 1 q by simp
      then show ?thesis using clamp_nat by simp
    next
      case 2
      then show ?thesis using q zero by simp
    next
      case 3
      then have "Math_round (Math_log10 lg x) = Fin (of_int \<lfloor>lg q + 1 / 2\<rfloor>)"
        using q by simp
      then show ?thesis using clamp_nat by simp
    qed
  qed
qed

lemma inferDecimals_positive:
  assumes "positiveInput rawStr f"
  shows "\<exists>k\<le>18. inferDecimals lg rawStr f = Fin (of_nat k)"
proof -
  from assms obtain r b a where rf: "rawStr = Some r" "f = Some (Fin b)"
    and a: "parseFloat r = Fin a" "0 < a" and b: "0 < b"
    by (auto simp: positiveInput_def split: option.splits elim!: positiveFinite.elims)
  have r: "r \<noteq> []" "r \<noteq> ''0''"
    using a parseFloat_empty parseFloat_zero by auto
  have "0 < a / b" using a(2) b by simp
  then have "toDouble (a / b) = PInf \<or> (\<exists>q\<ge>0. toDouble (a / b) = Fin q)"
    by (rule toDouble_nonneg)
  then have "\<exists>k\<le>18. Math_max (Fin 0)
      (Math_min (Math_round (Math_log10 lg (toDouble (a / b)))) (Fin 18)) = Fin (of_nat k)"
    by (rule clamp_round_log10)
  moreover have "inferDecimals lg rawStr f
      = Math_max (Fin 0) (Math_min (Math_round (Math_log10 lg (toDouble (a / b)))) (Fin 18))"
    using r b a(1) by (simp add: inferDecimals_def rf falsy_def Let_def)
  ultimately show ?thesis by simp
qed

lemma formatUnits_nat_decimals:
  "formatUnits v (Fin (of_nat k)) = Inr (parseFloat (formatUnitsText v k))"
  by (simp add: formatUnits_def)

section \<open>Properties of the event decoder\<close>

lemma decodeEvent_wellFormed:
  assumes wf: "wellFormedLog entry"
    and sd: "supplyDecimals info = Fin (of_nat ds)"
    and bd: "borrowDecimals info = Fin (of_nat db)"
  shows "decodeEvent entry info prices =
    (if signedWord entry 2 = 0 \<and> signedWord entry 3 = 0 then None
     else Some (int (hexValue (payloadWord entry 1)),
       (if signedWord entry 2 \<noteq> 0 then
          [\<lparr>date = Date_of (jmul (parseInt16 (timeStamp entry)) (Fin 1000)),
            timestamp = parseInt16 (timeStamp entry),
            description = (if 0 < signedWord entry 2 then ''Collateral Deposit''
                           else ''Collateral Withdrawal''),
            asset = supplySymbol info,
            amount = (if 0 < signedWord entry 2
                      then parseFloat (formatUnitsText \<bar>signedWord entry 2\<bar> ds)
                      else jneg (parseFloat (formatUnitsText \<bar>signedWord entry 2\<bar> ds))),
            symbol = supplySymbol info,
            usdValue = jmul (Math_abs (parseFloat (formatUnitsText \<bar>signedWord entry 2\<bar> ds)))
                         (priceOrZero prices (supplySymbol info)),
            txHash = transactionHash entry,
            isRepayOrWithdraw = (\<not> 0 < signedWord entry 2)\<rparr>]
        else [])
       @ (if signedWord entry 3 \<noteq> 0 then
          [\<lparr>date = Date_of (jmul (parseInt16 (timeStamp entry)) (Fin 1000)),
            timestamp = parseInt16 (timeStamp entry),
            description = (if 0 < signedWord entry 3 then ''Margin Loan'' else ''Loan Repayment''),
            asset = borrowSymbol info,
            amount = (if 0 < signedWord entry 3
                      then parseFloat (formatUnitsText \<bar>signedWord entry 3\<bar> db)
                      else jneg (parseFloat (formatUnitsText \<bar>signedWord entry 3\<bar> db))),
            symbol = borrowSymbol info,
            usdValue = jmul (Math_abs (parseFloat (formatUnitsText \<bar>signedWord entry 3\<bar> db)))
                         (priceOrZero prices (borrowSymbol info)),
            txHash = transactionHash entry,
            isRepayOrWithdraw = (\<not> 0 < signedWord entry 3)\<rparr>]
        else [])))"
proof -
  from wf obtain d where d: "data entry = Some d" and len: "2 + 64 * 5 \<le> length d"
    and w1: "isHexWord (word (drop 2 d) 1)" and w2: "isHexWord (word (drop 2 d) 2)"
    and w3: "isHexWord (word (drop 2 d) 3)"
    by (auto simp: wellFormedLog_def split: option.splits)
  have pw: "payloadWord entry i = word (drop 2 d) i" for i
    by (simp add: payloadWord_def d)
  have ne: "d \<noteq> []" using len by auto
  have guard: "\<not> (d = [] \<or> length d < 2 + 64 * 5)" using len ne by simp
  from w1 have "word (drop 2 d) 1 \<noteq> []" "list_all (\<lambda>c. digitVal c \<noteq> None) (word (drop 2 d) 1)"
    by (auto simp: isHexWord_def)
  then have nft: "BigInt_of_string (''0x'' @ word (drop 2 d) 1) = Inr (int (hexValue (payloadWord entry 1)))"
    unfolding pw by (rule BigInt_of_hex)
  have c: "decodeInt256 (word (drop 2 d) 2) = Inr (signedWord entry 2)"
    unfolding signedWord_def pw by (rule decodeInt256_word(3) [OF w2])
  have b: "decodeInt256 (word (drop 2 d) 3) = Inr (signedWord entry 3)"
    unfolding signedWord_def pw by (rule decodeInt256_word(3) [OF w3])
  have fs: "formatUnits v (supplyDecimals info) = Inr (parseFloat (formatUnitsText v ds))" for v
    unfolding sd by (rule formatUnits_nat_decimals)
  have fb: "formatUnits v (borrowDecimals info) = Inr (parseFloat (formatUnitsText v db))" for v
    unfolding bd by (rule formatUnits_nat_decimals)
  show ?thesis
    unfolding decodeEvent_def d option.case if_not_P [OF guard] Let_def nft c b fs fb sum.case
    by (auto simp: abs_if)
qed

text \<open>
  Claim C2. For every well-formed raw log and a vault whose decimals are non-negative
  integers, \<open>decodeEvent\<close> produces one row per non-zero delta: for the collateral delta a
  deposit row (\<open>Collateral Deposit\<close>) when it is positive and a withdrawal row
  (\<open>Collateral Withdrawal\<close>) when it is negative, then for the debt delta a borrow row
  (\<open>Margin Loan\<close>) when it is positive and a repayment row (\<open>Loan Repayment\<close>) when it is
  negative. So a log yields 0, 1 or 2 rows, and with both deltas zero the result is
  \<open>null\<close>, not an error.
\<close>

theorem decodeEvent_rows:
  assumes "wellFormedLog entry"
    and "supplyDecimals info = Fin (of_nat ds)"
    and "borrowDecimals info = Fin (of_nat db)"
  shows "(signedWord entry 2 = 0 \<and> signedWord entry 3 = 0 \<longrightarrow>
            decodeEvent entry info prices = None)
       \<and> (signedWord entry 2 \<noteq> 0 \<or> signedWord entry 3 \<noteq> 0 \<longrightarrow>
            (\<exists>rows. decodeEvent entry info prices
                       = Some (int (hexValue (payloadWord entry 1)), rows)
               \<and> map description rows
                   = colLabels (signedWord entry 2) @ debtLabels (signedWord entry 3)
               \<and> length rows = (if signedWord entry 2 \<noteq> 0 then 1 else 0)
                               + (if signedWord entry 3 \<noteq> 0 then 1 else 0)
               \<and> 1 \<le> length rows \<and> length rows \<le> 2))"
  unfolding decodeEvent_wellFormed [OF assms]
  by (auto simp: colLabels_def debtLabels_def)

lemma exampleLog_words:
  "payloadWord exampleLog 1 = ''000000000000000000000000000000000000000000000000000000000000002a''"
  "payloadWord exampleLog 2 = ''000000000000000000000000000000000000000000000000000000000016e360''"
  "payloadWord exampleLog 3 = ''fffffffffffffffffffffffffffffffffffffffffffffffffffffffffffffc18''"
  by (simp_all add: payloadWord_def exampleLog_def word_def String_slice_def)

lemma exampleLog_wellFormed: "wellFormedLog exampleLog"
proof -
  have "data exampleLog = Some ''0x000000000000000000000000aaaaaaaaaaaaaaaaaaaaaaaaaaaaaaaaaaaaaaaa000000000000000000000000000000000000000000000000000000000000002a000000000000000000000000000000000000000000000000000000000016e360fffffffffffffffffffffffffffffffffffffffffffffffffffffffffffffc18000000000000000000000000bbbbbbbbbbbbbbbbbbbbbbbbbbbbbbbbbbbbbbbb''"
    by (simp add: exampleLog_def)
  moreover have "isHexWord ''000000000000000000000000000000000000000000000000000000000000002a''" "isHexWord ''000000000000000000000000000000000000000000000000000000000016e360''" "isHexWord ''fffffffffffffffffffffffffffffffffffffffffffffffffffffffffffffc18''"
    by (simp_all add: isHexWord_def digitVal_def)
  ultimately show ?thesis
    using exampleLog_words by (simp add: wellFormedLog_def payloadWord_def)
qed

lemma exampleLog_values:
  "hexValue (payloadWord exampleLog 1) = 42"
  "signedWord exampleLog 2 = 1500000"
  "signedWord exampleLog 3 = - 1000"
proof -
  have h: "hexValue w = v" if "isHexWord w" "parseDigitsAcc 16 0 w = Some v" for w v
  proof -
    from that(1) have "w \<noteq> []" "list_all (\<lambda>c. digitVal c \<noteq> None) w"
      by (auto simp: isHexWord_def)
    then have "parseDigitsAcc 16 0 w = Some (hexValue w)" by (rule hexValue_parse)
    with that(2) show ?thesis by simp
  qed
  show "hexValue (payloadWord exampleLog 1) = 42"
    unfolding exampleLog_words by (rule h) (simp_all add: isHexWord_def digitVal_def)
  have "hexValue ''000000000000000000000000000000000000000000000000000000000016e360'' = 1500000"
    by (rule h) (simp_all add: isHexWord_def digitVal_def)
  then show "signedWord exampleLog 2 = 1500000"
    unfolding signedWord_def exampleLog_words by simp
  have "hexValue ''fffffffffffffffffffffffffffffffffffffffffffffffffffffffffffffc18'' = 2 ^ 256 - 1000"
    by (rule h) (simp_all add: isHexWord_def digitVal_def)
  then have "(word_of_int (int (hexValue ''fffffffffffffffffffffffffffffffffffffffffffffffffffffffffffffc18'')) :: 256 word) = - 1000"
    by simp
  then show "signedWord exampleLog 3 = - 1000"
    unfolding signedWord_def exampleLog_words by simp
qed

theorem decodeEvent_rows_witness:
  "wellFormedLog exampleLog
   \<and> supplyDecimals exampleInfo = Fin (of_nat 6) \<and> borrowDecimals exampleInfo = Fin (of_nat 3)
   \<and> (\<exists>rows. decodeEvent exampleLog exampleInfo Map.empty = Some (42, rows)
         \<and> map description rows = [''Collateral Deposit'', ''Loan Repayment'']
         \<and> length rows = 2)"
proof -
  have sd: "supplyDecimals exampleInfo = Fin (of_nat 6)"
    and bd: "borrowDecimals exampleInfo = Fin (of_nat 3)"
    by (simp_all add: exampleInfo_def)
  from decodeEvent_rows [OF exampleLog_wellFormed sd bd, of Map.empty]
  have "\<exists>rows. decodeEvent exampleLog exampleInfo Map.empty = Some (42, rows)
         \<and> map description rows = [''Collateral Deposit'', ''Loan Repayment'']
         \<and> length rows = 2"
    unfolding exampleLog_values by (auto simp: colLabels_def debtLabels_def)
  with exampleLog_wellFormed sd bd show ?thesis by blast
qed

section \<open>Properties of the paginated fetch\<close>

lemma fetchPage_paged:
  "fetchPage (pagedSource pages) a acc pg reqs =
     (if length (pages pg) < 1000 then Finish (Inr (acc @ pages pg)) (reqs @ [logsRequest a pg])
      else Continue (acc @ pages pg) (pg + 1) (reqs @ [logsRequest a pg]))"
  by (simp add: fetchPage_def pagedSource_def pageResponse_def logsRequest_def resultLogs_def
      MAX_RESULTS_PER_PAGE_def Let_def)

lemma fetchLoop_paged:
  assumes "pg \<le> k" "\<forall>j. pg \<le> j \<and> j < k \<longrightarrow> \<not> length (pages j) < 1000"
    and "length (pages k) < 1000"
  shows "fetchLoop (pagedSource pages) a acc pg reqs =
           Some (Inr (acc @ concat (map pages [pg..<Suc k])),
                 reqs @ map (logsRequest a) [pg..<Suc k])"
  using assms
proof (induction "k - pg" arbitrary: pg acc reqs)
  case 0
  then have "pg = k" by simp
  then show ?case
    using 0 by (subst fetchLoop.simps) (simp add: fetchPage_paged)
next
  case (Suc n)
  then have lt: "pg < k" by simp
  then have full: "\<not> length (pages pg) < 1000" using Suc.prems(2) by simp
  have "n = k - (pg + 1)" using Suc.hyps(2) by simp
  moreover have "pg + 1 \<le> k" using lt by simp
  moreover have "\<forall>j. pg + 1 \<le> j \<and> j < k \<longrightarrow> \<not> length (pages j) < 1000"
    using Suc.prems(2) by simp
  ultimately have IH: "fetchLoop (pagedSource pages) a (acc @ pages pg) (pg + 1) (reqs @ [logsRequest a pg]) =
      Some (Inr ((acc @ pages pg) @ concat (map pages [pg + 1..<Suc k])),
            (reqs @ [logsRequest a pg]) @ map (logsRequest a) [pg + 1..<Suc k])"
    using Suc.prems(3) by (intro Suc.hyps(1)) simp_all
  have up: "[pg..<Suc k] = pg # [pg + 1..<Suc k]" using lt by (simp add: upt_conv_Cons)
  have step: "fetchLoop (pagedSource pages) a acc pg reqs
      = fetchLoop (pagedSource pages) a (acc @ pages pg) (pg + 1) (reqs @ [logsRequest a pg])"
    by (subst fetchLoop.simps) (simp add: fetchPage_paged full)
  show ?case
    unfolding step IH up by (simp del: upt_Suc)
qed

lemma fetchVaultEvents_paged:
  assumes "1 \<le> k" "length (pages k) < 1000"
    and "\<forall>j. 1 \<le> j \<and> j < k \<longrightarrow> \<not> length (pages j) < 1000"
  shows "fetchVaultEvents (pagedSource pages) a [] =
           Some (Inr (concat (map pages [1..<Suc k])), map (logsRequest a) [1..<Suc k])"
  using fetchLoop_paged [OF assms(1) assms(3) assms(2), of a "[]" "[]"]
  by (simp add: fetchVaultEvents_def del: upt_Suc)

text \<open>
  Claim C5. For every log source whose successful pages eventually hold fewer than the
  page size of 1000 entries, \<open>fetchVaultEvents\<close> terminates and returns the concatenation of
  the pages up to and including the first page shorter than 1000; the requests it issues
  are those for page 1 up to that page, and none for a later page. For 1000 entries on
  page 1 and 400 on page 2 it returns 1400 entries after two requests.
\<close>

theorem fetchVaultEvents_pagination:
  "(\<exists>k. 1 \<le> k \<and> length (pages k) < 1000) \<longrightarrow>
   (\<exists>k. 1 \<le> k \<and> length (pages k) < 1000
      \<and> (\<forall>j. 1 \<le> j \<and> j < k \<longrightarrow> \<not> length (pages j) < 1000)
      \<and> fetchVaultEvents (pagedSource pages) a [] =
          Some (Inr (concat (map pages [1..<Suc k])), map (logsRequest a) [1..<Suc k]))"
proof
  assume ex: "\<exists>k. 1 \<le> k \<and> length (pages k) < 1000"
  define k where "k = (LEAST k. 1 \<le> k \<and> length (pages k) < 1000)"
  from ex have k: "1 \<le> k \<and> length (pages k) < 1000"
    unfolding k_def by (rule LeastI_ex)
  have first: "\<forall>j. 1 \<le> j \<and> j < k \<longrightarrow> \<not> length (pages j) < 1000"
    unfolding k_def using not_less_Least by blast
  from k first have "fetchVaultEvents (pagedSource pages) a [] =
      Some (Inr (concat (map pages [1..<Suc k])), map (logsRequest a) [1..<Suc k])"
    by (intro fetchVaultEvents_paged) simp_all
  with k first show "\<exists>k. 1 \<le> k \<and> length (pages k) < 1000
      \<and> (\<forall>j. 1 \<le> j \<and> j < k \<longrightarrow> \<not> length (pages j) < 1000)
      \<and> fetchVaultEvents (pagedSource pages) a [] =
          Some (Inr (concat (map pages [1..<Suc k])), map (logsRequest a) [1..<Suc k])"
    by blast
qed

theorem fetchVaultEvents_pagination_witness:
  "length (twoPages 1) = 1000 \<and> length (twoPages 2) = 400
   \<and> fetchVaultEvents (pagedSource twoPages) ''0xvault'' [] =
       Some (Inr (replicate 1400 exampleLog), [logsRequest ''0xvault'' 1, logsRequest ''0xvault'' 2])"
proof -
  have l1: "length (twoPages 1) = 1000" and l2: "length (twoPages 2) = 400"
    by (simp_all add: twoPages_def)
  have "\<exists>k. 1 \<le> k \<and> length (twoPages k) < 1000"
    by (rule exI [of _ 2]) (simp add: l2)
  with fetchVaultEvents_pagination [of twoPages "''0xvault''"]
  obtain k where k: "1 \<le> k" "length (twoPages k) < 1000"
    and first: "\<forall>j. 1 \<le> j \<and> j < k \<longrightarrow> \<not> length (twoPages j) < 1000"
    and res: "fetchVaultEvents (pagedSource twoPages) ''0xvault'' [] =
          Some (Inr (concat (map twoPages [1..<Suc k])), map (logsRequest ''0xvault'') [1..<Suc k])"
    by blast
  have "k \<noteq> 1" using k(2) l1 by auto
  moreover have "\<not> 2 < k" using first l2 by (auto dest!: spec [where x = 2])
  ultimately have k2: "k = 2" using k(1) by simp
  have "[1..<Suc 2] = [1, 2]" by (simp add: upt_rec)
  then have "concat (map twoPages [1..<Suc 2]) = replicate 1000 exampleLog @ replicate 400 exampleLog"
    and "map (logsRequest ''0xvault'') [1..<Suc 2] = [logsRequest ''0xvault'' 1, logsRequest ''0xvault'' 2]"
    by (simp_all add: twoPages_def)
  moreover have "replicate 1000 exampleLog @ replicate 400 exampleLog = replicate 1400 exampleLog"
    by (simp add: replicate_add [symmetric])
  ultimately show ?thesis using res l1 l2 unfolding k2 by simp
qed







section \<open>Properties of the transaction history assembler\<close>

subsection \<open>The comparison of timestamps and the stable sort\<close>

lemma jle_refl: "x \<noteq> NaN \<Longrightarrow> jle x x"
  by (cases x) simp_all

lemma jle_trans: "jle x y \<Longrightarrow> jle y z \<Longrightarrow> jle x z"
  by (cases x; cases y; cases z) simp_all

lemma jle_total: "x \<noteq> NaN \<Longrightarrow> y \<noteq> NaN \<Longrightarrow> jle x y \<or> jle y x"
  by (cases x; cases y) auto

lemma toDouble_le_minus_1:
  assumes "x \<le> - 1"
  shows "toDouble x = NInf \<or> (\<exists>y\<le>- 1. toDouble x = Fin y)"
proof -
  have "1 \<le> - x" using assms by simp
  from toDouble_ge_1 [OF this] have "jneg (toDouble x) = PInf \<or> (\<exists>y\<ge>1. jneg (toDouble x) = Fin y)"
    by (simp add: toDouble_neg)
  then show ?thesis
    by (cases "toDouble x") auto
qed

lemma isPositive_toDouble_int: "isPositive (toDouble (of_int d)) \<longleftrightarrow> 0 < d"
proof -
  consider "d = 0" | "1 \<le> d" | "d \<le> - 1" by linarith
  then show ?thesis
  proof cases
    case 1
    then show ?thesis by (simp add: toDouble_zero)
  next
    case 2
    then have "(1::rat) \<le> of_int d" by simp
    from toDouble_ge_1 [OF this] 2 show ?thesis by auto
  next
    case 3
    then have "(of_int d :: rat) \<le> - 1" by (metis of_int_le_iff of_int_minus of_int_1)
    from toDouble_le_minus_1 [OF this] 3 show ?thesis by auto
  qed
qed

lemma isPositive_jsub:
  assumes "integralNum a" "integralNum b"
  shows "isPositive (jsub b a) \<longleftrightarrow> \<not> jle b a"
proof (cases a)
  case (Fin x)
  note a = this
  show ?thesis
  proof (cases b)
    case (Fin y)
    from assms a Fin obtain i j where ij: "x = of_int i" "y = of_int j"
      by (metis integralNum.simps(1))
    have "isPositive (toDouble (of_int (j - i))) \<longleftrightarrow> 0 < j - i"
      by (rule isPositive_toDouble_int)
    then show ?thesis using a Fin ij by (simp add: not_le)
  qed (use assms a in simp_all)
qed (use assms in \<open>cases b; simp\<close>)+

lemma set_insertBy: "set (insertBy cmp x ys) = insert x (set ys)"
  by (induction ys) auto

lemma mset_insertBy: "mset (insertBy cmp x ys) = add_mset x (mset ys)"
  by (induction ys) simp_all

lemma mset_Array_sort: "mset (Array_sort cmp xs) = mset xs"
  by (induction xs) (simp_all add: Array_sort_def mset_insertBy)

lemma set_Array_sort: "set (Array_sort cmp xs) = set xs"
  using mset_Array_sort [of cmp xs] by (metis set_mset_mset)

lemma insertBy_descending:
  assumes "descending ys" "integralNum (timestamp x)" "\<forall>y\<in>set ys. integralNum (timestamp y)"
  shows "descending (insertBy compareRows x ys)"
  using assms
proof (induction ys)
  case Nil
  then show ?case by (simp add: descending_def)
next
  case (Cons y ys)
  have iy: "integralNum (timestamp y)" using Cons.prems(3) by simp
  have pos: "isPositive (compareRows x y) \<longleftrightarrow> \<not> jle (timestamp y) (timestamp x)"
    unfolding compareRows_def using Cons.prems(2) iy by (rule isPositive_jsub)
  have nn: "timestamp x \<noteq> NaN" "timestamp y \<noteq> NaN"
    using Cons.prems(2) iy by auto
  show ?case
  proof (cases "isPositive (compareRows x y)")
    case True
    then have "jle (timestamp x) (timestamp y)"
      using pos jle_total [OF nn] by blast
    moreover have "descending (insertBy compareRows x ys)"
      using Cons by (simp add: descending_def)
    ultimately show ?thesis
      using True Cons.prems(1) by (auto simp: descending_def set_insertBy)
  next
    case False
    then have le: "jle (timestamp y) (timestamp x)" using pos by simp
    have "\<forall>z\<in>set ys. jle (timestamp z) (timestamp x)"
      using Cons.prems(1) le by (auto simp: descending_def intro: jle_trans)
    then show ?thesis
      using False le Cons.prems(1) by (simp add: descending_def)
  qed
qed

lemma Array_sort_descending:
  assumes "\<forall>y\<in>set xs. integralNum (timestamp y)"
  shows "descending (Array_sort compareRows xs)"
  using assms
proof (induction xs)
  case Nil
  show ?case by (simp add: Array_sort_def descending_def)
next
  case (Cons x xs)
  then have "descending (foldr (insertBy compareRows) xs [])"
    by (simp add: Array_sort_def)
  moreover have "\<forall>y\<in>set (foldr (insertBy compareRows) xs []). integralNum (timestamp y)"
    using Cons.prems set_Array_sort [of compareRows xs] by (simp add: Array_sort_def)
  ultimately show ?case
    using Cons.prems by (simp add: Array_sort_def insertBy_descending)
qed

lemma insertBy_stable:
  assumes "integralNum (timestamp x)" "\<forall>y\<in>set ys. integralNum (timestamp y)"
  shows "filter (\<lambda>r. timestamp r = t) (insertBy compareRows x ys)
       = filter (\<lambda>r. timestamp r = t) (x # ys)"
  using assms
proof (induction ys)
  case Nil
  show ?case by simp
next
  case (Cons y ys)
  have iy: "integralNum (timestamp y)" using Cons.prems(2) by simp
  have pos: "isPositive (compareRows x y) \<longleftrightarrow> \<not> jle (timestamp y) (timestamp x)"
    unfolding compareRows_def using Cons.prems(1) iy by (rule isPositive_jsub)
  show ?case
  proof (cases "isPositive (compareRows x y)")
    case True
    have "timestamp x \<noteq> NaN" using Cons.prems(1) by auto
    then have "jle (timestamp x) (timestamp x)" by (rule jle_refl)
    with True pos have "timestamp y \<noteq> timestamp x" by auto
    then show ?thesis using True Cons by auto
  next
    case False
    then show ?thesis by simp
  qed
qed

lemma Array_sort_stable:
  assumes "\<forall>y\<in>set xs. integralNum (timestamp y)"
  shows "filter (\<lambda>r. timestamp r = t) (Array_sort compareRows xs)
       = filter (\<lambda>r. timestamp r = t) xs"
  using assms
proof (induction xs)
  case Nil
  show ?case by (simp add: Array_sort_def)
next
  case (Cons x xs)
  have "\<forall>y\<in>set (foldr (insertBy compareRows) xs []). integralNum (timestamp y)"
    using Cons.prems set_Array_sort [of compareRows xs] by (simp add: Array_sort_def)
  then have "filter (\<lambda>r. timestamp r = t) (insertBy compareRows x (foldr (insertBy compareRows) xs []))
      = filter (\<lambda>r. timestamp r = t) (x # foldr (insertBy compareRows) xs [])"
    using Cons.prems by (intro insertBy_stable) simp_all
  with Cons show ?case by (simp add: Array_sort_def)
qed

subsection \<open>The rows of a run\<close>

lemma decodeEvent_timestamp:
  assumes "decodeEvent entry info prices = Some (n, rows)" "r \<in> set rows"
  shows "timestamp r = parseInt16 (timeStamp entry)"
  using assms
  by (auto simp: decodeEvent_def Let_def split: option.splits sum.splits if_splits)

lemma integralNum_Fin_iff: "integralNum (Fin q) \<longleftrightarrow> (\<exists>i. q = of_int i)"
proof
  assume "integralNum (Fin q)"
  then have "of_int \<lfloor>q\<rfloor> = q" by (simp only: integralNum.simps)
  then have "q = of_int \<lfloor>q\<rfloor>" by (rule sym)
  then show "\<exists>i. q = of_int i" by (rule exI)
next
  assume "\<exists>i. q = of_int i"
  then obtain i where "q = of_int i" ..
  then have "of_int \<lfloor>q\<rfloor> = q" by (simp only: floor_of_int)
  then show "integralNum (Fin q)" by (simp only: integralNum.simps)
qed

lemma integralNum_jneg: "integralNum x \<Longrightarrow> integralNum (jneg x)"
proof (cases x)
  case (Fin q)
  assume "integralNum x"
  with Fin have "integralNum (Fin q)" by (simp only:)
  then obtain i where "q = of_int i" unfolding integralNum_Fin_iff by blast
  then have "- q = of_int (- i)" by simp
  then have "integralNum (Fin (- q))" unfolding integralNum_Fin_iff by blast
  with Fin show ?thesis by (simp only: jneg.simps)
qed simp_all

lemma integralNum_toDouble_nat: "integralNum (toDouble (of_nat n))"
proof -
  have e: "toDouble (of_nat n) = toDouble (of_int (int n))" by simp
  from toDouble_of_int_integral [of "int n"] show ?thesis
    unfolding e
  proof (elim disjE exE)
    fix k assume "toDouble (of_int (int n)) = Fin (of_int k)"
    then show "integralNum (toDouble (of_int (int n)))"
      by (simp only: integralNum_Fin_iff) blast
  qed (simp_all only: integralNum.simps)
qed

lemma parseInt16_integral: "parseInt16 s = NaN \<or> integralNum (parseInt16 s)"
  by (auto simp: parseInt16_def Let_def integralNum_toDouble_nat integralNum_jneg
      split: option.splits)

lemma pushRows_eq:
  "pushRows info prices logs acc
     = acc @ concat (map (decodedRows info prices) (filter (isOwnedLog info prices) logs))"
  by (induction logs arbitrary: acc)
     (auto simp: isOwnedLog_def decodedRows_def split: option.splits)

lemma fetchAllVaults_eq:
  "fetchAllVaults env prices vaultMap acc w =
     (case fetchAllLogs env vaultMap w of
        None \<Rightarrow> None
      | Some (Inl e, w') \<Rightarrow> Some (Inl e, w')
      | Some (Inr fetched, w') \<Rightarrow> Some (Inr (acc @ ownedLedger prices fetched), w'))"
proof (induction vaultMap arbitrary: acc w)
  case Nil
  show ?case by (simp add: ownedLedger_def)
next
  case (Cons a vaultMap)
  obtain va info where a: "a = (va, info)" by (cases a)
  show ?case
    unfolding a
    by (simp add: Cons.IH pushRows_eq ownedLedger_def split: option.splits sum.splits prod.splits)
qed

lemma fetchAllLogs_infos:
  "fetchAllLogs env vaultMap w = Some (Inr fetched, w') \<Longrightarrow> map fst fetched = map snd vaultMap"
proof (induction vaultMap arbitrary: w fetched)
  case Nil
  then show ?case by simp
next
  case (Cons a vaultMap)
  obtain va info where a: "a = (va, info)" by (cases a)
  from Cons.prems show ?case
    unfolding a
    by (auto split: option.splits sum.splits prod.splits dest: Cons.IH)
qed

lemma ownedLedger_timestamps:
  assumes "r \<in> set (ownedLedger prices fetched)"
  shows "\<exists>s. timestamp r = parseInt16 s"
proof -
  from assms obtain info logs entry where "entry \<in> set logs"
    "r \<in> set (decodedRows info prices entry)"
    by (auto simp: ownedLedger_def)
  then obtain n rows where "decodeEvent entry info prices = Some (n, rows)" "r \<in> set rows"
    by (cases "decodeEvent entry info prices") (auto simp: decodedRows_def)
  then have "timestamp r = parseInt16 (timeStamp entry)" by (rule decodeEvent_timestamp)
  then show ?thesis ..
qed

lemma fetchForPositions_Inr:
  assumes "fetchForPositions lg env positions prices w = Some (Inr ledger, w')"
  obtains vaultMap fetched where "groupByVault lg positions [] = Inr vaultMap"
    and "fetchAllLogs env vaultMap w = Some (Inr fetched, w')"
    and "fetchAllVaults env prices vaultMap [] w = Some (Inr (ownedLedger prices fetched), w')"
    and "ledger = Array_sort compareRows (ownedLedger prices fetched)"
proof -
  from assms obtain vaultMap where g: "groupByVault lg positions [] = Inr vaultMap"
    by (auto simp: fetchForPositions_def split: sum.splits)
  from assms g obtain allT where f: "fetchAllVaults env prices vaultMap [] w = Some (Inr allT, w')"
    and l: "ledger = Array_sort compareRows allT"
    by (auto simp: fetchForPositions_def split: option.splits sum.splits prod.splits)
  from f obtain fetched where fl: "fetchAllLogs env vaultMap w = Some (Inr fetched, w')"
    and a: "allT = ownedLedger prices fetched"
    unfolding fetchAllVaults_eq by (auto split: option.splits sum.splits prod.splits)
  from g fl f l a show ?thesis using that by simp
qed

subsection \<open>The ids a vault is grouped under\<close>

lemma map_fst_updateInfo: "map fst (updateInfo k f m) = map fst m"
  by (induction m) auto

lemma map_of_updateInfo:
  "map_of (updateInfo k f m) k' = (if k' = k then map_option f (map_of m k) else map_of m k')"
  by (induction m) auto

lemma ownedIds_Cons:
  "ownedIds (pos # rest) va =
     (if vaultAddress pos = va
      then (case BigInt_of_string (nftId pos) of Inl e \<Rightarrow> {} | Inr n \<Rightarrow> {n}) else {})
     \<union> ownedIds rest va"
proof -
  have "ownedIds (pos # rest) va =
      set (if vaultAddress pos = va
           then (case BigInt_of_string (nftId pos) of Inl e \<Rightarrow> [] | Inr n \<Rightarrow> [n]) else [])
      \<union> ownedIds rest va"
    unfolding ownedIds_def by (simp only: list.map concat.simps set_append)
  moreover have "set (if vaultAddress pos = va
           then (case BigInt_of_string (nftId pos) of Inl e \<Rightarrow> [] | Inr n \<Rightarrow> [n]) else [])
      = (if vaultAddress pos = va
      then (case BigInt_of_string (nftId pos) of Inl e \<Rightarrow> {} | Inr n \<Rightarrow> {n}) else {})"
    by (cases "BigInt_of_string (nftId pos)"; cases "vaultAddress pos = va") simp_all
  ultimately show ?thesis by (simp only:)
qed

lemma groupByVault_ids:
  assumes "groupByVault lg ps vm0 = Inr vm" "distinct (map fst vm0)"
  shows "distinct (map fst vm)
       \<and> (\<forall>va info. map_of vm va = Some info \<longrightarrow>
            nftIds info = (case map_of vm0 va of None \<Rightarrow> {} | Some i0 \<Rightarrow> nftIds i0)
                          \<union> ownedIds ps va)"
  using assms
proof (induction ps arbitrary: vm0)
  case Nil
  then show ?case by (auto simp: ownedIds_def)
next
  case (Cons pos rest)
  define a where "a = vaultAddress pos"
  define fresh where "fresh = \<lparr>nftIds = {},
                  vi_supplyToken = supplyToken pos,
                  vi_borrowToken = borrowToken pos,
                  supplySymbol = tok_symbol (collateral pos),
                  borrowSymbol = tok_symbol (debt pos),
                  supplyName = tok_name (collateral pos),
                  borrowName = tok_name (debt pos),
                  supplyDecimals = getDecimals_supply lg pos,
                  borrowDecimals = getDecimals_borrow lg pos\<rparr>"
  define vm1 where "vm1 = (if map_of vm0 a = None then vm0 @ [(a, fresh)] else vm0)"
  from Cons.prems(1) obtain n where n: "BigInt_of_string (nftId pos) = Inr n"
    by (auto simp: Let_def split: sum.splits)
  define vm2 where "vm2 = updateInfo a (\<lambda>info. info\<lparr>nftIds := insert n (nftIds info)\<rparr>) vm1"
  have rec: "groupByVault lg rest vm2 = Inr vm"
    using Cons.prems(1) n
    by (cases "map_of vm0 (vaultAddress pos) = None")
       (auto simp: Let_def vm2_def vm1_def fresh_def a_def)
  have d1: "distinct (map fst vm1)"
    using Cons.prems(2) by (auto simp: vm1_def map_of_eq_None_iff)
  then have d2: "distinct (map fst vm2)" by (simp add: vm2_def map_fst_updateInfo)
  note IH = Cons.IH [OF rec d2]
  have m1: "map_of vm1 va = (if va = a \<and> map_of vm0 a = None then Some fresh else map_of vm0 va)" for va
    by (auto simp: vm1_def map_of_append map_add_def split: option.splits)
  have m2: "(case map_of vm2 va of None \<Rightarrow> {} | Some i0 \<Rightarrow> nftIds i0)
      = (case map_of vm0 va of None \<Rightarrow> {} | Some i0 \<Rightarrow> nftIds i0)
        \<union> (if a = va then {n} else {})" for va
    by (auto simp: vm2_def map_of_updateInfo m1 fresh_def split: option.splits)
  have o: "ownedIds (pos # rest) va = (if a = va then {n} else {}) \<union> ownedIds rest va" for va
    by (simp add: ownedIds_Cons n a_def)
  show ?case
    using IH unfolding m2 o by (simp add: Un_assoc)
qed

lemma groupByVault_owned:
  assumes "groupByVault lg positions [] = Inr vaultMap" "(va, info) \<in> set vaultMap"
  shows "nftIds info = ownedIds positions va"
proof -
  from groupByVault_ids [OF assms(1)] have d: "distinct (map fst vaultMap)"
    and ids: "\<And>va info. map_of vaultMap va = Some info \<Longrightarrow> nftIds info = ownedIds positions va"
    by simp_all
  from d assms(2) have "map_of vaultMap va = Some info" by (rule map_of_is_SomeI)
  then show ?thesis by (rule ids)
qed

lemma ledger_integral:
  assumes "\<forall>r\<in>set (ownedLedger prices fetched). timestamp r \<noteq> NaN"
  shows "\<forall>r\<in>set (ownedLedger prices fetched). integralNum (timestamp r)"
proof
  fix r assume r: "r \<in> set (ownedLedger prices fetched)"
  then obtain s where "timestamp r = parseInt16 s" using ownedLedger_timestamps by blast
  with parseInt16_integral [of s] assms r show "integralNum (timestamp r)" by auto
qed

subsection \<open>The example run\<close>

lemma groupByVault_example:
  "groupByVault lg [examplePosition] [] = Inr [(''0xvault'', groupedInfo)]"
proof -
  have n: "BigInt_of_string ''42'' = Inr 42"
    by (simp add: BigInt_of_string_def trim_def isWhiteSpace_def parseDigits_def digitVal_def Let_def)
  have d: "getDecimals_supply lg examplePosition = Fin 18"
    "getDecimals_borrow lg examplePosition = Fin 18"
    by (simp_all add: getDecimals_supply_def getDecimals_borrow_def examplePosition_def
        inferDecimals_def)
  show ?thesis
    by (simp add: Let_def d) (simp add: examplePosition_def n groupedInfo_def exampleInfo_def)
qed

lemma fetchVaultEvents_one_page:
  assumes "length (pages 1) < 1000"
  shows "fetchVaultEvents (pagedSource pages) a [] = Some (Inr (pages 1), [logsRequest a 1])"
  using fetchVaultEvents_paged [of 1 pages a] assms by simp

lemma same_data_wellFormed:
  "data entry = data exampleLog \<Longrightarrow> wellFormedLog entry"
  using exampleLog_wellFormed by (simp add: wellFormedLog_def)

lemma same_data_values:
  assumes "data entry = data exampleLog"
  shows "hexValue (payloadWord entry 1) = 42" "signedWord entry 2 = 1500000"
    "signedWord entry 3 = - 1000"
proof -
  have p: "payloadWord entry i = payloadWord exampleLog i" for i
    using assms by (simp add: payloadWord_def)
  show "hexValue (payloadWord entry 1) = 42" "signedWord entry 2 = 1500000"
    "signedWord entry 3 = - 1000"
    unfolding signedWord_def p using exampleLog_values by (simp_all add: signedWord_def)
qed

lemma example_rows:
  assumes "data entry = data exampleLog"
  shows "\<exists>r1 r2. decodeEvent entry groupedInfo prices = Some (42, [r1, r2])
     \<and> timestamp r1 = parseInt16 (timeStamp entry) \<and> timestamp r2 = parseInt16 (timeStamp entry)
     \<and> description r1 = ''Collateral Deposit'' \<and> description r2 = ''Loan Repayment''
     \<and> txHash r1 = transactionHash entry \<and> txHash r2 = transactionHash entry"
proof -
  have sd: "supplyDecimals groupedInfo = Fin (of_nat 18)"
    and bd: "borrowDecimals groupedInfo = Fin (of_nat 18)"
    by (simp_all add: groupedInfo_def)
  show ?thesis
    unfolding decodeEvent_wellFormed [OF same_data_wellFormed [OF assms] sd bd]
      same_data_values [OF assms]
    by simp
qed

lemma parseInt16_examples:
  "parseInt16 ''0x64'' = Fin 100" "parseInt16 ''0x12c'' = Fin 300" "parseInt16 ''0xc8'' = Fin 200"
proof -
  have t: "toDouble 100 = Fin 100" "toDouble 300 = Fin 300" "toDouble 200 = Fin 200"
    using toDouble_of_int_exact [of 100] toDouble_of_int_exact [of 300]
      toDouble_of_int_exact [of 200] by simp_all
  show "parseInt16 ''0x64'' = Fin 100" "parseInt16 ''0x12c'' = Fin 300"
    "parseInt16 ''0xc8'' = Fin 200"
    by (simp_all add: parseInt16_def isWhiteSpace_def digitVal_def parseDigits_def Let_def t)
qed

lemma isPositive_examples:
  "isPositive (toDouble 100)" "isPositive (toDouble 200)" "\<not> isPositive (toDouble 0)"
  "\<not> isPositive (toDouble (- 100))" "\<not> isPositive (toDouble (- 200))"
  using isPositive_toDouble_int [of 100] isPositive_toDouble_int [of 200]
    isPositive_toDouble_int [of 0] isPositive_toDouble_int [of "- 100"]
    isPositive_toDouble_int [of "- 200"]
  by simp_all

lemma foreignLog_words:
  "payloadWord foreignLog 1 = ''000000000000000000000000000000000000000000000000000000000000002b''"
  "payloadWord foreignLog 2 = ''000000000000000000000000000000000000000000000000000000000016e360''"
  "payloadWord foreignLog 3 = ''fffffffffffffffffffffffffffffffffffffffffffffffffffffffffffffc18''"
  by (simp_all add: payloadWord_def foreignLog_def word_def String_slice_def)

lemma foreignLog_wellFormed: "wellFormedLog foreignLog"
proof -
  have "isHexWord ''000000000000000000000000000000000000000000000000000000000000002b''"
    "isHexWord ''000000000000000000000000000000000000000000000000000000000016e360''"
    "isHexWord ''fffffffffffffffffffffffffffffffffffffffffffffffffffffffffffffc18''"
    by (simp_all add: isHexWord_def digitVal_def)
  then show ?thesis
    using foreignLog_words by (simp add: wellFormedLog_def payloadWord_def foreignLog_def)
qed

lemma foreignLog_id: "hexValue (payloadWord foreignLog 1) = 43"
proof -
  have "parseDigitsAcc 16 0 (payloadWord foreignLog 1) = Some (hexValue (payloadWord foreignLog 1))"
    unfolding foreignLog_words by (intro hexValue_parse) (simp_all add: digitVal_def)
  then show ?thesis
    unfolding foreignLog_words by (simp add: digitVal_def)
qed

lemma foreignLog_decoded:
  "\<exists>rows. decodeEvent foreignLog groupedInfo prices = Some (43, rows)"
proof -
  have s: "signedWord foreignLog 2 = signedWord exampleLog 2"
    "signedWord foreignLog 3 = signedWord exampleLog 3"
    by (simp_all add: signedWord_def foreignLog_words exampleLog_words)
  have sd: "supplyDecimals groupedInfo = Fin (of_nat 18)"
    and bd: "borrowDecimals groupedInfo = Fin (of_nat 18)"
    by (simp_all add: groupedInfo_def)
  show ?thesis
    unfolding decodeEvent_wellFormed [OF foreignLog_wellFormed sd bd] foreignLog_id s
      exampleLog_values
    by simp
qed

subsection \<open>The order of the ledger\<close>

lemma parseInt16_empty: "parseInt16 [] = NaN"
  by (simp add: parseInt16_def)

text \<open>
  Claim C7 as stated fails for a log without a hexadecimal \<open>timeStamp\<close>: its rows are
  pushed with the timestamp NaN, every comparison with them gives NaN, and the ledger of
  three logs with the timestamps 100, NaN and 300 keeps the rows of 100 before those of
  300. In this run only neighbours are compared and no comparison is positive, so no row
  is moved.
\<close>

theorem fetchForPositions_nan_timestamp_counterexample:
  "map_option (map_sum id (map timestamp))
     (map_option fst
       (fetchForPositions floorLog10 (pagedSource nanLogs) [examplePosition] Map.empty []))
     = Some (Inr [Fin 100, Fin 100, NaN, NaN, Fin 300, Fin 300])
   \<and> \<not> descending (ledgerOf
       (fetchForPositions floorLog10 (pagedSource nanLogs) [examplePosition] Map.empty []))"
proof -
  let ?prices = "Map.empty :: string \<Rightarrow> jsnum option"
  have d: "data (exampleLogAt ts) = data exampleLog" for ts by (simp add: exampleLogAt_def)
  from example_rows [OF d, of "''0x64''" ?prices] obtain a1 a2
    where a: "decodeEvent (exampleLogAt ''0x64'') groupedInfo ?prices = Some (42, [a1, a2])"
      and ta: "timestamp a1 = Fin 100" "timestamp a2 = Fin 100"
    by (auto simp: exampleLogAt_def parseInt16_examples)
  from example_rows [OF d, of "[]" ?prices] obtain n1 n2
    where n: "decodeEvent (exampleLogAt []) groupedInfo ?prices = Some (42, [n1, n2])"
      and tn: "timestamp n1 = NaN" "timestamp n2 = NaN"
    by (auto simp: exampleLogAt_def parseInt16_empty)
  from example_rows [OF d, of "''0x12c''" ?prices] obtain b1 b2
    where b: "decodeEvent (exampleLogAt ''0x12c'') groupedInfo ?prices = Some (42, [b1, b2])"
      and tb: "timestamp b1 = Fin 300" "timestamp b2 = Fin 300"
    by (auto simp: exampleLogAt_def parseInt16_examples)
  have ids: "nftIds groupedInfo = {42}" by (simp add: groupedInfo_def exampleInfo_def)
  have f: "fetchVaultEvents (pagedSource nanLogs) ''0xvault'' []
      = Some (Inr (nanLogs 1), [logsRequest ''0xvault'' 1])"
    by (rule fetchVaultEvents_one_page) (simp add: nanLogs_def)
  have p: "pushRows groupedInfo ?prices (nanLogs k) [] = [a1, a2, n1, n2, b1, b2]" for k
    by (simp add: nanLogs_def a n b ids)
  have s: "Array_sort compareRows [a1, a2, n1, n2, b1, b2] = [a1, a2, n1, n2, b1, b2]"
    by (simp add: Array_sort_def compareRows_def ta tn tb isPositive_examples)
  have run: "fetchForPositions floorLog10 (pagedSource nanLogs) [examplePosition] ?prices []
      = Some (Inr [a1, a2, n1, n2, b1, b2], [logsRequest ''0xvault'' 1])"
    unfolding fetchForPositions_def groupByVault_example by (simp add: f p s)
  show ?thesis
    unfolding run by (simp add: ledgerOf_def descending_def ta tn tb)
qed

text \<open>
  Claim C7, amended. For every list of positions and every log source, a ledger returned by
  \<open>fetchForPositions\<close> whose timestamps are numbers (every \<open>timeStamp\<close> of a pushed log
  parsed as a hexadecimal number, so that none is NaN) is in descending order of timestamp,
  it holds exactly the rows that were collected (as a multiset), and the rows of any one
  timestamp stand in the order in which they were collected. Three logs with the
  timestamps 100, 300 and 200 give the rows of 300, then those of 200, then those of 100.
\<close>

theorem fetchForPositions_sorted:
  assumes "fetchForPositions lg env positions prices w = Some (Inr ledger, w')"
    and "\<forall>r\<in>set ledger. timestamp r \<noteq> NaN"
  shows "descending ledger
       \<and> (\<exists>vaultMap allTransactions.
            groupByVault lg positions [] = Inr vaultMap
          \<and> fetchAllVaults env prices vaultMap [] w = Some (Inr allTransactions, w')
          \<and> mset ledger = mset allTransactions
          \<and> (\<forall>t. filter (\<lambda>r. timestamp r = t) ledger
                 = filter (\<lambda>r. timestamp r = t) allTransactions))"
proof -
  from assms(1) obtain vaultMap fetched where g: "groupByVault lg positions [] = Inr vaultMap"
    and f: "fetchAllVaults env prices vaultMap [] w = Some (Inr (ownedLedger prices fetched), w')"
    and l: "ledger = Array_sort compareRows (ownedLedger prices fetched)"
    by (rule fetchForPositions_Inr)
  have "\<forall>r\<in>set (ownedLedger prices fetched). timestamp r \<noteq> NaN"
    using assms(2) unfolding l set_Array_sort .
  then have i: "\<forall>r\<in>set (ownedLedger prices fetched). integralNum (timestamp r)"
    by (rule ledger_integral)
  have "descending ledger" unfolding l using i by (rule Array_sort_descending)
  moreover have "mset ledger = mset (ownedLedger prices fetched)"
    unfolding l by (rule mset_Array_sort)
  moreover have "\<forall>t. filter (\<lambda>r. timestamp r = t) ledger
      = filter (\<lambda>r. timestamp r = t) (ownedLedger prices fetched)"
    unfolding l using Array_sort_stable [OF i] by blast
  ultimately show ?thesis using g f by blast
qed

theorem fetchForPositions_sorted_witness:
  "\<exists>ledger w'.
      fetchForPositions (\<lambda>q. 0) (pagedSource threeLogs) [examplePosition] Map.empty []
        = Some (Inr ledger, w')
    \<and> (\<forall>r\<in>set ledger. timestamp r \<noteq> NaN)
    \<and> descending ledger
    \<and> map timestamp ledger = [Fin 300, Fin 300, Fin 200, Fin 200, Fin 100, Fin 100]
    \<and> map description ledger
        = [''Collateral Deposit'', ''Loan Repayment'', ''Collateral Deposit'', ''Loan Repayment'',
           ''Collateral Deposit'', ''Loan Repayment'']"
proof -
  let ?prices = "Map.empty :: string \<Rightarrow> jsnum option"
  have d: "data (exampleLogAt ts) = data exampleLog" for ts by (simp add: exampleLogAt_def)
  from example_rows [OF d, of "''0x64''" ?prices] obtain a1 a2
    where a: "decodeEvent (exampleLogAt ''0x64'') groupedInfo ?prices = Some (42, [a1, a2])"
      and ta: "timestamp a1 = Fin 100" "timestamp a2 = Fin 100"
      and da: "description a1 = ''Collateral Deposit''" "description a2 = ''Loan Repayment''"
    by (auto simp: exampleLogAt_def parseInt16_examples)
  from example_rows [OF d, of "''0x12c''" ?prices] obtain b1 b2
    where b: "decodeEvent (exampleLogAt ''0x12c'') groupedInfo ?prices = Some (42, [b1, b2])"
      and tb: "timestamp b1 = Fin 300" "timestamp b2 = Fin 300"
      and db: "description b1 = ''Collateral Deposit''" "description b2 = ''Loan Repayment''"
    by (auto simp: exampleLogAt_def parseInt16_examples)
  from example_rows [OF d, of "''0xc8''" ?prices] obtain c1 c2
    where c: "decodeEvent (exampleLogAt ''0xc8'') groupedInfo ?prices = Some (42, [c1, c2])"
      and tc: "timestamp c1 = Fin 200" "timestamp c2 = Fin 200"
      and dc: "description c1 = ''Collateral Deposit''" "description c2 = ''Loan Repayment''"
    by (auto simp: exampleLogAt_def parseInt16_examples)
  have ids: "nftIds groupedInfo = {42}" by (simp add: groupedInfo_def exampleInfo_def)
  have f: "fetchVaultEvents (pagedSource threeLogs) ''0xvault'' []
      = Some (Inr (threeLogs 1), [logsRequest ''0xvault'' 1])"
    by (rule fetchVaultEvents_one_page) (simp add: threeLogs_def)
  have p: "pushRows groupedInfo ?prices (threeLogs k) [] = [a1, a2, b1, b2, c1, c2]" for k
    by (simp add: threeLogs_def a b c ids)
  have s: "Array_sort compareRows [a1, a2, b1, b2, c1, c2] = [b1, b2, c1, c2, a1, a2]"
    by (simp add: Array_sort_def compareRows_def ta tb tc isPositive_examples)
  have run: "fetchForPositions (\<lambda>q. 0) (pagedSource threeLogs) [examplePosition] ?prices []
      = Some (Inr [b1, b2, c1, c2, a1, a2], [logsRequest ''0xvault'' 1])"
    unfolding fetchForPositions_def groupByVault_example by (simp add: f p s)
  have nn: "\<forall>r\<in>set [b1, b2, c1, c2, a1, a2]. timestamp r \<noteq> NaN"
    using ta tb tc by simp
  from fetchForPositions_sorted [OF run nn] have "descending [b1, b2, c1, c2, a1, a2]" ..
  with run nn ta tb tc da db dc show ?thesis by simp
qed

subsection \<open>Filtering by the owned position ids\<close>

text \<open>
  Claim C8. For every list of positions and every log source, the vault information of each
  monitored vault lists exactly the ids of the caller's positions on that vault, and the
  ledger returned by \<open>fetchForPositions\<close> holds exactly the rows (as a multiset) decoded from
  the fetched logs whose emitted id is in that list: every row of the ledger is a row of
  such a log. A log of a monitored vault that carries another id contributes no row.
\<close>

theorem fetchForPositions_owned_only:
  assumes "fetchForPositions lg env positions prices w = Some (Inr ledger, w')"
  shows "\<exists>vaultMap fetched.
           groupByVault lg positions [] = Inr vaultMap
         \<and> fetchAllLogs env vaultMap w = Some (Inr fetched, w')
         \<and> map fst fetched = map snd vaultMap
         \<and> (\<forall>(va, info)\<in>set vaultMap. nftIds info = ownedIds positions va)
         \<and> mset ledger = mset (ownedLedger prices fetched)
         \<and> (\<forall>row\<in>set ledger. \<exists>(info, logs)\<in>set fetched. \<exists>entry\<in>set logs.
               isOwnedLog info prices entry \<and> row \<in> set (decodedRows info prices entry))"
proof -
  from assms obtain vaultMap fetched where g: "groupByVault lg positions [] = Inr vaultMap"
    and fl: "fetchAllLogs env vaultMap w = Some (Inr fetched, w')"
    and l: "ledger = Array_sort compareRows (ownedLedger prices fetched)"
    by (rule fetchForPositions_Inr)
  have "map fst fetched = map snd vaultMap" using fl by (rule fetchAllLogs_infos)
  moreover have "\<forall>(va, info)\<in>set vaultMap. nftIds info = ownedIds positions va"
    using groupByVault_owned [OF g] by blast
  moreover have "mset ledger = mset (ownedLedger prices fetched)"
    unfolding l by (rule mset_Array_sort)
  moreover have "\<forall>row\<in>set ledger. \<exists>(info, logs)\<in>set fetched. \<exists>entry\<in>set logs.
               isOwnedLog info prices entry \<and> row \<in> set (decodedRows info prices entry)"
    unfolding l set_Array_sort by (auto simp: ownedLedger_def)
  ultimately show ?thesis using g fl by blast
qed

theorem fetchForPositions_owned_only_witness:
  "\<exists>ledger w'.
      fetchForPositions (\<lambda>q. 0) (pagedSource mixedLogs) [examplePosition] Map.empty []
        = Some (Inr ledger, w')
    \<and> hexValue (payloadWord foreignLog 1) = 43
    \<and> ownedIds [examplePosition] ''0xvault'' = {42}
    \<and> map txHash ledger = [''0xabc'', ''0xabc'']
    \<and> (\<forall>row\<in>set ledger. txHash row \<noteq> transactionHash foreignLog)"
proof -
  let ?prices = "Map.empty :: string \<Rightarrow> jsnum option"
  from example_rows [of exampleLog ?prices] obtain a1 a2
    where a: "decodeEvent exampleLog groupedInfo ?prices = Some (42, [a1, a2])"
      and ha: "txHash a1 = ''0xabc''" "txHash a2 = ''0xabc''"
      and ta: "timestamp a1 = Fin 100" "timestamp a2 = Fin 100"
    by (auto simp: exampleLog_def parseInt16_examples)
  from foreignLog_decoded [of ?prices] obtain rows
    where b: "decodeEvent foreignLog groupedInfo ?prices = Some (43, rows)" ..
  have ids: "nftIds groupedInfo = {42}" by (simp add: groupedInfo_def exampleInfo_def)
  have f: "fetchVaultEvents (pagedSource mixedLogs) ''0xvault'' []
      = Some (Inr (mixedLogs 1), [logsRequest ''0xvault'' 1])"
    by (rule fetchVaultEvents_one_page) (simp add: mixedLogs_def)
  have p: "pushRows groupedInfo ?prices (mixedLogs k) [] = [a1, a2]" for k
    by (simp add: mixedLogs_def a b ids)
  have s: "Array_sort compareRows [a1, a2] = [a1, a2]"
    by (simp add: Array_sort_def compareRows_def ta isPositive_examples)
  have run: "fetchForPositions (\<lambda>q. 0) (pagedSource mixedLogs) [examplePosition] ?prices []
      = Some (Inr [a1, a2], [logsRequest ''0xvault'' 1])"
    unfolding fetchForPositions_def groupByVault_example by (simp add: f p s)
  from fetchForPositions_owned_only [OF run] obtain vaultMap fetched
    where g: "groupByVault (\<lambda>q. 0) [examplePosition] [] = Inr vaultMap"
      and o: "\<forall>(va, info)\<in>set vaultMap. nftIds info = ownedIds [examplePosition] va"
    by blast
  from g have "vaultMap = [(''0xvault'', groupedInfo)]"
    unfolding groupByVault_example by simp
  with o have own: "ownedIds [examplePosition] ''0xvault'' = {42}"
    by (simp add: ids)
  from run own foreignLog_id ha show ?thesis by (simp add: foreignLog_def)
qed

section \<open>Properties of the decimals of a vault\<close>

subsection \<open>Rounding a logarithm to base 10\<close>

lemma log10_three_halves: "log 10 (3 / 2) < 1 / 4"
proof -
  have "4 * log 10 (3 / 2) = log 10 ((3 / 2) ^ 4)"
    by (simp add: log_nat_power)
  also have "\<dots> < log 10 10"
    by (subst log_less_cancel_iff) (simp_all add: power_divide)
  finally show ?thesis by simp
qed

lemma log10_powi: "log 10 (10 powi e) = of_int e"
  by (simp add: powr_real_of_int' [symmetric])

lemma log10_mono: "0 < a \<Longrightarrow> a \<le> b \<Longrightarrow> log 10 a \<le> log 10 b"
  by (subst log_le_cancel_iff) simp_all

lemma log10_near_power:
  fixes q :: real
  assumes "2 / 3 * 10 powi e \<le> q" "q \<le> 3 / 2 * 10 powi e"
  shows "\<bar>log 10 q - of_int e\<bar> < 1 / 4"
proof -
  have p: "(0::real) < 10 powi e" by simp
  then have lo: "(0::real) < 2 / 3 * 10 powi e" and hi: "(0::real) < 3 / 2 * 10 powi e"
    by simp_all
  from lo assms(1) have q: "0 < q" by linarith
  have "log 10 q \<le> log 10 (3 / 2 * 10 powi e)"
    using q assms(2) by (rule log10_mono)
  also have "\<dots> = log 10 (3 / 2) + log 10 (10 powi e)"
    by (rule log_mult_pos) (use p in simp_all)
  finally have u: "log 10 q - of_int e < 1 / 4"
    using log10_three_halves by (simp add: log10_powi)
  have "log 10 (2 / 3 * 10 powi e) \<le> log 10 q"
    using lo assms(1) by (rule log10_mono)
  moreover have "log 10 (2 / 3 * 10 powi e) = log 10 (2 / 3) + log 10 (10 powi e)"
    by (rule log_mult_pos) (use p in simp_all)
  moreover have "log 10 (2 / 3) = - log 10 (3 / 2)"
    using log_inverse [of 10 "3 / 2"] by (simp add: inverse_eq_divide)
  ultimately have "of_int e - log 10 q < 1 / 4"
    using log10_three_halves by (simp add: log10_powi)
  with u show ?thesis by linarith
qed

lemma of_rat_powi: "real_of_rat (10 powi e) = 10 powi e"
  by (simp add: power_int_def of_rat_power of_rat_inverse of_rat_divide)

lemma round_log10:
  assumes "0 < q" "2 / 3 * 10 powi e \<le> q" "q \<le> 3 / 2 * 10 powi e"
    and acc: "\<bar>real_of_rat (lg q) - log 10 (real_of_rat q)\<bar> \<le> 1 / 4"
  shows "Math_round (Math_log10 lg (Fin q)) = Fin (of_int e)"
proof -
  have b: "2 / 3 * 10 powi e \<le> real_of_rat q" "real_of_rat q \<le> 3 / 2 * 10 powi e"
  proof -
    have "real_of_rat (2 / 3 * 10 powi e) \<le> real_of_rat q"
      using assms(2) by (simp only: of_rat_less_eq)
    then show "2 / 3 * 10 powi e \<le> real_of_rat q"
      by (simp add: of_rat_mult of_rat_divide of_rat_powi)
    have "real_of_rat q \<le> real_of_rat (3 / 2 * 10 powi e)"
      using assms(3) by (simp only: of_rat_less_eq)
    then show "real_of_rat q \<le> 3 / 2 * 10 powi e"
      by (simp add: of_rat_mult of_rat_divide of_rat_powi)
  qed
  from log10_near_power [OF b] have n: "\<bar>log 10 (real_of_rat q) - of_int e\<bar> < 1 / 4" .
  show ?thesis
  proof (cases "q = 1")
    case True
    with n have "\<bar>real_of_int e\<bar> < 1 / 4" by simp
    then have "e = 0" by linarith
    moreover have "\<lfloor>(1::rat) / 2\<rfloor> = 0" by linarith
    ultimately show ?thesis using True by simp
  next
    case False
    from n acc have "\<bar>real_of_rat (lg q) - of_int e\<bar> < 1 / 2" by linarith
    then have "real_of_int e \<le> real_of_rat (lg q) + 1 / 2"
      "real_of_rat (lg q) + 1 / 2 < real_of_int e + 1"
      by linarith+
    then have "real_of_rat (of_int e) \<le> real_of_rat (lg q + 1 / 2)"
      "real_of_rat (lg q + 1 / 2) < real_of_rat (of_int e + 1)"
      by (simp_all add: of_rat_add of_rat_divide)
    then have "of_int e \<le> lg q + 1 / 2" "lg q + 1 / 2 < of_int e + 1"
      by (simp_all only: of_rat_less_eq of_rat_less)
    then have "\<lfloor>lg q + 1 / 2\<rfloor> = e" by linarith
    with False assms(1) show ?thesis by simp
  qed
qed

subsection \<open>The decimals inferred from a ratio, and the position they are taken from\<close>

lemma clamp_int:
  "Math_max (Fin 0) (Math_min (Fin (of_int e)) (Fin 18)) = Fin (of_int (max 0 (min 18 e)))"
  by (simp add: max_def min_def)

lemma inferDecimals_ratio:
  assumes p: "parseFloat r = Fin a" "0 < a" and b: "0 < b"
    and q: "jdiv (Fin a) (Fin b) = Fin q"
    and lo: "2 / 3 * 10 powi e \<le> q" and hi: "q \<le> 3 / 2 * 10 powi e"
    and acc: "\<bar>real_of_rat (lg q) - log 10 (real_of_rat q)\<bar> \<le> 1 / 4"
  shows "inferDecimals lg (Some r) (Some (Fin b)) = Fin (of_int (max 0 (min 18 e)))"
proof -
  have r: "r \<noteq> []" "r \<noteq> ''0''"
    using p parseFloat_empty parseFloat_zero by auto
  have "(0::rat) < 2 / 3 * 10 powi e" by simp
  with lo have q0: "0 < q" by linarith
  have "inferDecimals lg (Some r) (Some (Fin b))
      = Math_max (Fin 0) (Math_min (Math_round (Math_log10 lg (jdiv (Fin a) (Fin b)))) (Fin 18))"
    using r b p(1) by (simp add: inferDecimals_def falsy_def Let_def)
  also have "\<dots> = Math_max (Fin 0) (Math_min (Fin (of_int e)) (Fin 18))"
    unfolding q using round_log10 [of q e lg, OF q0 lo hi acc] by simp
  finally show ?thesis unfolding clamp_int .
qed

lemma groupByVault_decimals:
  assumes "groupByVault lg ps vm0 = Inr vm"
  shows "\<forall>va info. map_of vm va = Some info \<longrightarrow>
           (case map_of vm0 va of
              Some i0 \<Rightarrow> supplyDecimals info = supplyDecimals i0
                       \<and> borrowDecimals info = borrowDecimals i0
            | None \<Rightarrow> (\<exists>pos. find (\<lambda>p. vaultAddress p = va) ps = Some pos
                         \<and> supplyDecimals info = getDecimals_supply lg pos
                         \<and> borrowDecimals info = getDecimals_borrow lg pos))"
  using assms
proof (induction ps arbitrary: vm0)
  case Nil
  then show ?case by auto
next
  case (Cons pos rest)
  define a where "a = vaultAddress pos"
  define fresh where "fresh = \<lparr>nftIds = {},
                  vi_supplyToken = supplyToken pos,
                  vi_borrowToken = borrowToken pos,
                  supplySymbol = tok_symbol (collateral pos),
                  borrowSymbol = tok_symbol (debt pos),
                  supplyName = tok_name (collateral pos),
                  borrowName = tok_name (debt pos),
                  supplyDecimals = getDecimals_supply lg pos,
                  borrowDecimals = getDecimals_borrow lg pos\<rparr>"
  define vm1 where "vm1 = (if map_of vm0 a = None then vm0 @ [(a, fresh)] else vm0)"
  from Cons.prems(1) obtain n where n: "BigInt_of_string (nftId pos) = Inr n"
    by (auto simp: Let_def split: sum.splits)
  define f where "f = (\<lambda>info :: vault_info. info\<lparr>nftIds := insert n (nftIds info)\<rparr>)"
  define vm2 where "vm2 = updateInfo a f vm1"
  have rec: "groupByVault lg rest vm2 = Inr vm"
    using Cons.prems(1) n
    by (cases "map_of vm0 (vaultAddress pos) = None")
       (auto simp: Let_def vm2_def vm1_def fresh_def a_def f_def)
  note IH = Cons.IH [OF rec, rule_format]
  have m1: "map_of vm1 va = (if va = a \<and> map_of vm0 a = None then Some fresh else map_of vm0 va)" for va
    by (auto simp: vm1_def map_of_append map_add_def split: option.splits)
  have m2: "map_of vm2 va = (if va = a then map_option f (map_of vm1 a) else map_of vm1 va)" for va
    by (simp add: vm2_def map_of_updateInfo)
  have fd: "supplyDecimals (f i) = supplyDecimals i" "borrowDecimals (f i) = borrowDecimals i" for i
    by (simp_all add: f_def)
  show ?case
  proof (intro allI impI)
    fix va info assume v: "map_of vm va = Some info"
    note ih = IH [OF v]
    show "case map_of vm0 va of
              Some i0 \<Rightarrow> supplyDecimals info = supplyDecimals i0
                       \<and> borrowDecimals info = borrowDecimals i0
            | None \<Rightarrow> (\<exists>p. find (\<lambda>p. vaultAddress p = va) (pos # rest) = Some p
                         \<and> supplyDecimals info = getDecimals_supply lg p
                         \<and> borrowDecimals info = getDecimals_borrow lg p)"
    proof (cases "map_of vm0 va")
      case (Some i0)
      then have "map_of vm2 va = Some i0 \<or> map_of vm2 va = Some (f i0)"
        by (auto simp: m2 m1)
      with ih Some show ?thesis by (auto simp: fd)
    next
      case None
      show ?thesis
      proof (cases "va = a")
        case True
        with None have "map_of vm2 va = Some (f fresh)" by (simp add: m2 m1)
        with ih have "supplyDecimals info = getDecimals_supply lg pos"
          "borrowDecimals info = getDecimals_borrow lg pos"
          by (simp_all add: fd) (simp_all add: fresh_def)
        with None True show ?thesis by (simp add: a_def)
      next
        case False
        with None have "map_of vm2 va = None" by (simp add: m2 m1)
        with ih None False show ?thesis by (auto simp: a_def)
      qed
    qed
  qed
qed

lemma groupByVault_first_position:
  assumes "groupByVault lg positions [] = Inr vaultMap" "(va, info) \<in> set vaultMap"
  shows "\<exists>pos. find (\<lambda>p. vaultAddress p = va) positions = Some pos
            \<and> supplyDecimals info = getDecimals_supply lg pos
            \<and> borrowDecimals info = getDecimals_borrow lg pos"
proof -
  from groupByVault_ids [OF assms(1)] have "distinct (map fst vaultMap)" by simp
  with assms(2) have "map_of vaultMap va = Some info" by (rule map_of_is_SomeI [rotated])
  with groupByVault_decimals [OF assms(1)] show ?thesis by fastforce
qed

lemma log10_examples: "log 10 1000000 = 6" "log 10 1000 = 3"
proof -
  have "log 10 ((10::real) ^ 6) = real 6" "log 10 ((10::real) ^ 3) = real 3"
    by (rule log_pow_cancel; simp)+
  moreover have "(10::real) ^ 6 = 1000000" "(10::real) ^ 3 = 1000" by simp_all
  ultimately show "log 10 1000000 = 6" "log 10 1000 = 3" by (simp_all only: of_nat_numeral)
qed

lemma floorLog10_examples: "floorLog10 1000000 = 6" "floorLog10 1000 = 3"
  by (simp_all add: floorLog10_def floorlog_def log10_examples)

lemma parseFloat_examples:
  "parseFloat ''1500000'' = Fin 1500000" "parseFloat ''1500'' = Fin 1500"
proof -
  have "parseFloat ''1500000'' = toDouble 1500000" "parseFloat ''1500'' = toDouble 1500"
    by (subst parseFloat_unsigned; simp add: isDigit_def digitsNat_def exponentPart_def)+
  then show "parseFloat ''1500000'' = Fin 1500000" "parseFloat ''1500'' = Fin 1500"
    using toDouble_of_int_exact [of 1500000] toDouble_of_int_exact [of 1500] by simp_all
qed

lemma jdiv_examples:
  "jdiv (Fin 1500000) (Fin (3 / 2)) = Fin 1000000" "jdiv (Fin 1500) (Fin (3 / 2)) = Fin 1000"
  using toDouble_of_int_exact [of 1000000] toDouble_of_int_exact [of 1000] by simp_all

lemma groupByVault_two_positions:
  "groupByVault lg [examplePosition, fundedPosition] []
     = Inr [(''0xvault'', groupedInfo\<lparr>nftIds := {42, 43}\<rparr>)]"
proof -
  have n: "BigInt_of_string ''42'' = Inr 42" "BigInt_of_string ''43'' = Inr 43"
    by (simp_all add: BigInt_of_string_def trim_def isWhiteSpace_def parseDigits_def digitVal_def
        Let_def)
  have d: "getDecimals_supply lg examplePosition = Fin 18"
    "getDecimals_borrow lg examplePosition = Fin 18"
    by (simp_all add: getDecimals_supply_def getDecimals_borrow_def examplePosition_def
        inferDecimals_def)
  have v: "vaultAddress fundedPosition = ''0xvault''" "nftId fundedPosition = ''43''"
    "vaultAddress examplePosition = ''0xvault''" "nftId examplePosition = ''42''"
    by (simp_all add: fundedPosition_def examplePosition_def)
  show ?thesis
    by (simp add: Let_def d v n)
       (auto simp: examplePosition_def groupedInfo_def exampleInfo_def)
qed

text \<open>
  Claim C10 as stated fails where it says that the decimals are inferred from each
  position's amounts: the decimals belong to the vault and are inferred when its first
  position is met. With an empty first position and a second position of 1.5 units of a
  6-decimal token on the same vault, the vault's supply decimals are the default 18,
  although the second position's own amounts give 6.
\<close>

theorem groupByVault_second_position_counterexample:
  "map_sum id (map (supplyDecimals \<circ> snd))
     (groupByVault floorLog10 [examplePosition, fundedPosition] []) = Inr [Fin 18]
   \<and> vaultAddress fundedPosition = vaultAddress examplePosition
   \<and> inferDecimals floorLog10 (Some (pos_supply fundedPosition))
        (Some (tok_amount (collateral fundedPosition))) = Fin 6"
proof -
  have "\<bar>real_of_rat (floorLog10 1000000) - log 10 (real_of_rat 1000000)\<bar> \<le> 1 / 4"
    by (simp add: floorLog10_examples log10_examples)
  with inferDecimals_ratio [of "''1500000''" 1500000 "3 / 2" 1000000 6 floorLog10]
    parseFloat_examples(1) jdiv_examples(1)
  have "inferDecimals floorLog10 (Some ''1500000'') (Some (Fin (3 / 2))) = Fin 6"
    by simp
  then have i: "inferDecimals floorLog10 (Some (pos_supply fundedPosition))
        (Some (tok_amount (collateral fundedPosition))) = Fin 6"
    by (simp add: fundedPosition_def)
  have g: "map_sum id (map (supplyDecimals \<circ> snd))
     (groupByVault floorLog10 [examplePosition, fundedPosition] []) = Inr [Fin 18]"
    unfolding groupByVault_two_positions by (simp add: groupedInfo_def)
  have v: "vaultAddress fundedPosition = vaultAddress examplePosition"
    by (simp add: fundedPosition_def)
  from g v i show ?thesis by (intro conjI)
qed

text \<open>
  Claim C10, amended. The assembler takes the token decimals of a vault from
  \<open>_inferDecimals\<close> on the raw amount string and the formatted amount of the first position
  listed for that vault; later positions on the vault do not change them. When the raw
  string is empty or \<open>'0'\<close>, or the formatted amount is missing or 0, the result is the
  default 18. When the raw string parses to a positive finite Number and the formatted
  amount is a positive finite Number, the result is an integer in \<open>[0, 18]\<close>, whatever the
  engine's \<open>log10\<close> returns; it is the rounded logarithm of the ratio of the two amounts,
  clamped: whenever the ratio is within a factor \<open>3/2\<close> of \<open>10^e\<close> and the engine's \<open>log10\<close>
  is within \<open>1/4\<close> of the logarithm there, the result is \<open>e\<close> clamped to \<open>[0, 18]\<close>. In all
  these cases \<open>_formatUnits\<close> gets a non-negative integer exponent of at most 18 and does
  not throw.
\<close>

theorem inferDecimals_log_ratio_clamped:
  "(defaultInput rawStr f \<longrightarrow> inferDecimals lg rawStr f = Fin 18)
   \<and> (positiveInput rawStr f \<longrightarrow> (\<exists>k\<le>18. inferDecimals lg rawStr f = Fin (of_nat k)))
   \<and> (parseFloat r = Fin a \<and> 0 < a \<and> 0 < b \<and> jdiv (Fin a) (Fin b) = Fin q
        \<and> 2 / 3 * 10 powi e \<le> q \<and> q \<le> 3 / 2 * 10 powi e
        \<and> \<bar>real_of_rat (lg q) - log 10 (real_of_rat q)\<bar> \<le> 1 / 4 \<longrightarrow>
        inferDecimals lg (Some r) (Some (Fin b)) = Fin (of_int (max 0 (min 18 e))))
   \<and> (defaultInput rawStr f \<or> positiveInput rawStr f \<longrightarrow>
        (\<exists>k\<le>18. \<forall>v. formatUnits v (inferDecimals lg rawStr f)
                         = Inr (parseFloat (formatUnitsText v k))))
   \<and> (groupByVault lg positions [] = Inr vaultMap \<longrightarrow>
        (\<forall>(va, info)\<in>set vaultMap.
           \<exists>pos. find (\<lambda>p. vaultAddress p = va) positions = Some pos
             \<and> supplyDecimals info
                = inferDecimals lg (Some (pos_supply pos)) (Some (tok_amount (collateral pos)))
             \<and> borrowDecimals info
                = inferDecimals lg (Some (pos_borrow pos)) (Some (tok_amount (debt pos)))))"
proof -
  have d: "\<exists>k\<le>18. inferDecimals lg rawStr f = Fin (of_nat k)" if "defaultInput rawStr f"
    using inferDecimals_default [OF that, of lg] by (intro exI [of _ 18]) simp
  have u: "\<exists>k\<le>18. \<forall>v. formatUnits v (inferDecimals lg rawStr f)
                         = Inr (parseFloat (formatUnitsText v k))"
    if "defaultInput rawStr f \<or> positiveInput rawStr f"
  proof -
    from that d inferDecimals_positive [of rawStr f lg]
    obtain k where "k \<le> 18" "inferDecimals lg rawStr f = Fin (of_nat k)" by blast
    then show ?thesis using formatUnits_nat_decimals by auto
  qed
  have g: "\<forall>(va, info)\<in>set vaultMap.
           \<exists>pos. find (\<lambda>p. vaultAddress p = va) positions = Some pos
             \<and> supplyDecimals info
                = inferDecimals lg (Some (pos_supply pos)) (Some (tok_amount (collateral pos)))
             \<and> borrowDecimals info
                = inferDecimals lg (Some (pos_borrow pos)) (Some (tok_amount (debt pos)))"
    if "groupByVault lg positions [] = Inr vaultMap"
    using groupByVault_first_position [OF that]
    by (auto simp: getDecimals_supply_def getDecimals_borrow_def)
  show ?thesis
    using inferDecimals_default [of rawStr f lg] inferDecimals_positive [of rawStr f lg]
      inferDecimals_ratio [of r a b q e lg] u g
    by blast
qed

theorem inferDecimals_log_ratio_clamped_witness:
  "defaultInput (Some ''0'') (Some (Fin 5))
   \<and> inferDecimals floorLog10 (Some ''0'') (Some (Fin 5)) = Fin 18
   \<and> positiveInput (Some ''1500000'') (Some (Fin (3 / 2)))
   \<and> inferDecimals floorLog10 (Some ''1500000'') (Some (Fin (3 / 2))) = Fin 6
   \<and> inferDecimals floorLog10 (Some ''1500'') (Some (Fin (3 / 2))) = Fin 3
   \<and> formatUnits 1500000 (inferDecimals floorLog10 (Some ''1500000'') (Some (Fin (3 / 2))))
       = Inr (parseFloat (formatUnitsText 1500000 6))
   \<and> groupByVault floorLog10 [examplePosition, fundedPosition] []
       = Inr [(''0xvault'', groupedInfo\<lparr>nftIds := {42, 43}\<rparr>)]
   \<and> find (\<lambda>p. vaultAddress p = ''0xvault'') [examplePosition, fundedPosition]
       = Some examplePosition
   \<and> supplyDecimals (groupedInfo\<lparr>nftIds := {42, 43}\<rparr>)
       = inferDecimals floorLog10 (Some (pos_supply examplePosition))
           (Some (tok_amount (collateral examplePosition)))"
proof -
  let ?lg = floorLog10
  have d: "defaultInput (Some ''0'') (Some (Fin 5))" by (simp add: defaultInput_def)
  have p: "positiveInput (Some ''1500000'') (Some (Fin (3 / 2)))"
    by (simp add: positiveInput_def parseFloat_examples)
  have acc6: "\<bar>real_of_rat (?lg 1000000) - log 10 (real_of_rat 1000000)\<bar> \<le> 1 / 4"
    and acc3: "\<bar>real_of_rat (?lg 1000) - log 10 (real_of_rat 1000)\<bar> \<le> 1 / 4"
    by (simp_all add: floorLog10_examples log10_examples)
  have b6: "(2::rat) / 3 * 10 powi 6 \<le> 1000000" "(1000000::rat) \<le> 3 / 2 * 10 powi 6"
    and b3: "(2::rat) / 3 * 10 powi 3 \<le> 1000" "(1000::rat) \<le> 3 / 2 * 10 powi 3"
    by simp_all
  note t = inferDecimals_log_ratio_clamped
  from t [of "Some ''0''" "Some (Fin 5)" ?lg, THEN conjunct1] d
  have c1: "inferDecimals ?lg (Some ''0'') (Some (Fin 5)) = Fin 18" by blast
  from t [of _ _ ?lg "''1500000''" 1500000 "3 / 2" 1000000 6,
      THEN conjunct2, THEN conjunct2, THEN conjunct1]
    parseFloat_examples(1) jdiv_examples(1) b6 acc6
  have c2: "inferDecimals ?lg (Some ''1500000'') (Some (Fin (3 / 2))) = Fin 6" by simp
  from t [of _ _ ?lg "''1500''" 1500 "3 / 2" 1000 3,
      THEN conjunct2, THEN conjunct2, THEN conjunct1]
    parseFloat_examples(2) jdiv_examples(2) b3 acc3
  have c3: "inferDecimals ?lg (Some ''1500'') (Some (Fin (3 / 2))) = Fin 3" by simp
  from t [of "Some ''1500000''" "Some (Fin (3 / 2))" ?lg,
      THEN conjunct2, THEN conjunct2, THEN conjunct2, THEN conjunct1] p
  obtain k where "formatUnits 1500000 (inferDecimals ?lg (Some ''1500000'') (Some (Fin (3 / 2))))
      = Inr (parseFloat (formatUnitsText 1500000 k))"
    and "inferDecimals ?lg (Some ''1500000'') (Some (Fin (3 / 2))) = Fin (of_nat k) \<or> True"
    by blast
  have c4: "formatUnits 1500000 (inferDecimals ?lg (Some ''1500000'') (Some (Fin (3 / 2))))
      = Inr (parseFloat (formatUnitsText 1500000 6))"
    unfolding c2 using formatUnits_nat_decimals [of 1500000 6] by simp
  note g = groupByVault_two_positions [of ?lg]
  have f: "find (\<lambda>p. vaultAddress p = ''0xvault'') [examplePosition, fundedPosition]
       = Some examplePosition"
    by (simp add: examplePosition_def)
  from t [of _ _ ?lg _ _ _ _ _ "[examplePosition, fundedPosition]"
        "[(''0xvault'', groupedInfo\<lparr>nftIds := {42, 43}\<rparr>)]",
      THEN conjunct2, THEN conjunct2, THEN conjunct2, THEN conjunct2, THEN mp, OF g]
  obtain pos where "find (\<lambda>p. vaultAddress p = ''0xvault'') [examplePosition, fundedPosition]
       = Some pos"
    and "supplyDecimals (groupedInfo\<lparr>nftIds := {42, 43}\<rparr>)
       = inferDecimals ?lg (Some (pos_supply pos)) (Some (tok_amount (collateral pos)))"
    by (auto simp del: find.simps)
  with f have c5: "supplyDecimals (groupedInfo\<lparr>nftIds := {42, 43}\<rparr>)
       = inferDecimals ?lg (Some (pos_supply examplePosition))
           (Some (tok_amount (collateral examplePosition)))"
    by simp
  from d c1 p c2 c3 c4 g f c5 show ?thesis by (intro conjI)
qed

end
